theory Spec2Isabelle
  imports Main
begin

section \<open>Python values and list access\<close>

text \<open>
  The program is Python. Integers are unbounded (\<open>int\<close>); a list index may be negative
  and then counts from the end; an index outside \<open>-n .. n-1\<close> raises \<open>IndexError\<close>;
  a slice never raises. Every raise of the source is a branch \<open>Inl\<close> of the model.
\<close>

datatype error = IndexError | ZeroDivisionError

type_synonym grid = "int list list"

definition py_pos :: "nat \<Rightarrow> int \<Rightarrow> error + nat" where
  "py_pos n i =
     (let j = (if i < 0 then i + int n else i)
      in if 0 \<le> j \<and> j < int n then Inr (nat j) else Inl IndexError)"

definition py_get :: "'a list \<Rightarrow> int \<Rightarrow> error + 'a" where
  "py_get xs i = (case py_pos (length xs) i of Inl e \<Rightarrow> Inl e | Inr k \<Rightarrow> Inr (xs ! k))"

text \<open>\<open>puzzle[r][c] = v\<close> with non-negative \<open>r\<close> and \<open>c\<close>.\<close>

definition grid_store :: "grid \<Rightarrow> nat \<Rightarrow> nat \<Rightarrow> int \<Rightarrow> error + grid" where
  "grid_store g r c v =
     (if r < length g \<and> c < length (g ! r) then Inr (g[r := (g ! r)[c := v]])
      else Inl IndexError)"

section \<open>The classes Cell and SudokuSolver\<close>

text \<open>
  A \<open>Cell\<close> object; its attribute \<open>game\<close> (the owning solver) is the solver state that
  every method of the model takes as a parameter. \<open>possibilities\<close> is first a Python set of
  small integers and then the list made of it; CPython enumerates such a set in ascending
  order, and the model keeps the set as an ascending list from the start.
\<close>

record cell =
  solved :: bool
  number :: int
  possibilities :: "int list"
  row :: nat
  column :: nat
  current_index :: nat

record solver =
  puzzle :: grid
  solve_puzzle :: "cell list"
  box_size :: nat
  backtrack_coord :: int

text \<open>\<open>int(len(puzzle) ** .5)\<close>: the number of \<open>k \<ge> 1\<close> with \<open>k * k \<le> n\<close>.\<close>

definition int_sqrt :: "nat \<Rightarrow> nat" where
  "int_sqrt n = length (filter (\<lambda>k. k * k \<le> n) [1..<Suc n])"

definition new_solver :: "grid \<Rightarrow> solver" where
  "new_solver p =
     \<lparr>puzzle = p, solve_puzzle = [], box_size = int_sqrt (length p), backtrack_coord = 0\<rparr>"

subsection \<open>Rows, columns and boxes\<close>

definition get_row :: "solver \<Rightarrow> nat \<Rightarrow> error + int list" where
  "get_row game row_number = py_get (puzzle game) (int row_number)"

fun column_of_rows :: "grid \<Rightarrow> nat \<Rightarrow> error + int list" where
  "column_of_rows [] column_number = Inr []"
| "column_of_rows (r # rs) column_number =
     (case py_get r (int column_number) of
        Inl e \<Rightarrow> Inl e
      | Inr x \<Rightarrow>
          (case column_of_rows rs column_number of
             Inl e \<Rightarrow> Inl e
           | Inr xs \<Rightarrow> Inr (x # xs)))"

definition get_column :: "solver \<Rightarrow> nat \<Rightarrow> error + int list" where
  "get_column game column_number = column_of_rows (puzzle game) column_number"

definition find_box_start :: "solver \<Rightarrow> nat \<Rightarrow> error + nat" where
  "find_box_start game coordinate =
     (if box_size game = 0 then Inl ZeroDivisionError
      else Inr (coordinate div box_size game * box_size game))"

definition get_box_coordinates :: "solver \<Rightarrow> nat \<Rightarrow> nat \<Rightarrow> error + (nat \<times> nat)" where
  "get_box_coordinates game row_number column_number =
     (case find_box_start game column_number of
        Inl e \<Rightarrow> Inl e
      | Inr a \<Rightarrow>
          (case find_box_start game row_number of
             Inl e \<Rightarrow> Inl e
           | Inr b \<Rightarrow> Inr (a, b)))"

text \<open>The loop of \<open>get_box\<close> over the row indices \<open>range(start_x, box_size + start_x)\<close>.\<close>

fun box_rows :: "grid \<Rightarrow> nat list \<Rightarrow> nat \<Rightarrow> nat \<Rightarrow> error + int list" where
  "box_rows g [] start_y bs = Inr []"
| "box_rows g (i # is) start_y bs =
     (case py_get g (int i) of
        Inl e \<Rightarrow> Inl e
      | Inr r \<Rightarrow>
          (case box_rows g is start_y bs of
             Inl e \<Rightarrow> Inl e
           | Inr b \<Rightarrow> Inr (take bs (drop start_y r) @ b)))"

definition get_box :: "solver \<Rightarrow> nat \<Rightarrow> nat \<Rightarrow> error + int list" where
  "get_box game row_number column_number =
     (case get_box_coordinates game row_number column_number of
        Inl e \<Rightarrow> Inl e
      | Inr (start_y, start_x) \<Rightarrow>
          box_rows (puzzle game) [start_x..<box_size game + start_x] start_y (box_size game))"

subsection \<open>Cell methods\<close>

definition check_area :: "int list \<Rightarrow> bool" where
  "check_area area =
     (let values = filter (\<lambda>item. item \<noteq> 0) area
      in length values = length (remdups values))"

definition set_number :: "cell \<Rightarrow> solver \<Rightarrow> error + (cell \<times> solver)" where
  "set_number c game =
     (if \<not> solved c then
        (case py_get (possibilities c) (int (current_index c)) of
           Inl e \<Rightarrow> Inl e
         | Inr v \<Rightarrow>
             (case grid_store (puzzle game) (row c) (column c) v of
                Inl e \<Rightarrow> Inl e
              | Inr g \<Rightarrow> Inr (c\<lparr>number := v\<rparr>, game\<lparr>puzzle := g\<rparr>)))
      else Inr (c, game))"

definition handle_one_possibility :: "cell \<Rightarrow> solver \<Rightarrow> error + (cell \<times> solver)" where
  "handle_one_possibility c game =
     (if length (possibilities c) = 1 then set_number (c\<lparr>solved := True\<rparr>) game
      else Inr (c, game))"

definition find_possibilities :: "cell \<Rightarrow> solver \<Rightarrow> error + (cell \<times> solver)" where
  "find_possibilities c game =
     (case get_row game (row c) of
        Inl e \<Rightarrow> Inl e
      | Inr r \<Rightarrow>
          (case get_column game (column c) of
             Inl e \<Rightarrow> Inl e
           | Inr cl \<Rightarrow>
               (case get_box game (row c) (column c) of
                  Inl e \<Rightarrow> Inl e
                | Inr b \<Rightarrow>
                    handle_one_possibility
                      (c\<lparr>possibilities :=
                           fold (\<lambda>item ps. if item \<in> set ps then remove1 item ps else ps)
                             (r @ cl @ b) (possibilities c)\<rparr>)
                      game)))"

text \<open>\<open>Cell.__init__\<close>\<close>

definition new_cell :: "nat \<Rightarrow> nat \<Rightarrow> int \<Rightarrow> solver \<Rightarrow> error + (cell \<times> solver)" where
  "new_cell column_number row_number n game =
     (let c = \<lparr>solved = (n > 0), number = n,
                possibilities = (if \<not> (n > 0) then [1, 2, 3, 4, 5, 6, 7, 8, 9] else []),
                row = row_number, column = column_number, current_index = 0\<rparr>
      in if \<not> solved c then find_possibilities c game else Inr (c, game))"

definition is_valid :: "cell \<Rightarrow> solver \<Rightarrow> error + bool" where
  "is_valid c game =
     (case get_row game (row c) of
        Inl e \<Rightarrow> Inl e
      | Inr r \<Rightarrow>
          (case get_column game (column c) of
             Inl e \<Rightarrow> Inl e
           | Inr cl \<Rightarrow>
               (case get_box game (row c) (column c) of
                  Inl e \<Rightarrow> Inl e
                | Inr b \<Rightarrow> Inr (check_area r \<and> check_area cl \<and> check_area b))))"

lemma set_number_keeps:
  "set_number c game = Inr (c', game') \<Longrightarrow>
     possibilities c' = possibilities c \<and> current_index c' = current_index c \<and>
     solved c' = solved c \<and> row c' = row c \<and> column c' = column c"
  by (auto simp: set_number_def split: if_splits sum.splits)

function increment_value :: "cell \<Rightarrow> solver \<Rightarrow> error + (cell \<times> solver)" where
  "increment_value c game =
     (case is_valid c game of
        Inl e \<Rightarrow> Inl e
      | Inr v \<Rightarrow>
          if \<not> v \<and> int (current_index c) < int (length (possibilities c)) - 1 then
            (case set_number (c\<lparr>current_index := current_index c + 1\<rparr>) game of
               Inl e \<Rightarrow> Inl e
             | Inr (c', game') \<Rightarrow> increment_value c' game')
          else Inr (c, game))"
  by pat_completeness auto
termination
proof (relation "measure (\<lambda>(c, game). length (possibilities c) - current_index c)")
  show "wf (measure (\<lambda>(c, game). length (possibilities c) - current_index c))"
    by simp
next
  fix c game v x c' game'
  assume a: "\<not> v \<and> int (current_index c) < int (length (possibilities c)) - 1"
    and s: "set_number (c\<lparr>current_index := current_index c + 1\<rparr>) game = Inr x"
    and x: "(c', game') = x"
  from s x have "possibilities c' = possibilities c \<and> current_index c' = current_index c + 1"
    using set_number_keeps [of "c\<lparr>current_index := current_index c + 1\<rparr>" game c' game']
    by simp
  with a show "((c', game'), (c, game))
      \<in> measure (\<lambda>(c, game). length (possibilities c) - current_index c)"
    by auto
qed

declare increment_value.simps [simp del]

subsection \<open>Solver methods\<close>

text \<open>
  A reference to a \<open>Cell\<close> object held in \<open>solve_puzzle\<close> is its position in that list.
  The two loops of \<open>initialize_board\<close> read the grid as it is when the item is reached.
\<close>

fun init_row :: "nat \<Rightarrow> nat list \<Rightarrow> solver \<Rightarrow> error + solver" where
  "init_row row_number [] game = Inr game"
| "init_row row_number (column_number # cs) game =
     (case new_cell column_number row_number (puzzle game ! row_number ! column_number) game of
        Inl e \<Rightarrow> Inl e
      | Inr (c, game') \<Rightarrow>
          init_row row_number cs (game'\<lparr>solve_puzzle := solve_puzzle game' @ [c]\<rparr>))"

fun init_rows :: "nat list \<Rightarrow> solver \<Rightarrow> error + solver" where
  "init_rows [] game = Inr game"
| "init_rows (row_number # rs) game =
     (case init_row row_number [0..<length (puzzle game ! row_number)] game of
        Inl e \<Rightarrow> Inl e
      | Inr game' \<Rightarrow> init_rows rs game')"

definition initialize_board :: "solver \<Rightarrow> error + solver" where
  "initialize_board game = init_rows [0..<length (puzzle game)] game"

function move_forward :: "solver \<Rightarrow> error + solver" where
  "move_forward game =
     (if backtrack_coord game < int (length (solve_puzzle game)) - 1 then
        (case py_get (solve_puzzle game) (backtrack_coord game) of
           Inl e \<Rightarrow> Inl e
         | Inr c \<Rightarrow>
             if solved c then move_forward (game\<lparr>backtrack_coord := backtrack_coord game + 1\<rparr>)
             else Inr game)
      else Inr game)"
  by pat_completeness auto
termination
  by (relation "measure (\<lambda>game. nat (int (length (solve_puzzle game)) - 1 - backtrack_coord game))")
    auto

declare move_forward.simps [simp del]

text \<open>The loop of \<open>backtrack\<close>, entered after the first decrement.\<close>

function backtrack_loop :: "solver \<Rightarrow> error + solver" where
  "backtrack_loop game =
     (case py_get (solve_puzzle game) (backtrack_coord game) of
        Inl e \<Rightarrow> Inl e
      | Inr c \<Rightarrow>
          if solved c then backtrack_loop (game\<lparr>backtrack_coord := backtrack_coord game - 1\<rparr>)
          else Inr game)"
  by pat_completeness auto
termination
  by (relation "measure (\<lambda>game. nat (backtrack_coord game + int (length (solve_puzzle game)) + 1))")
    (auto simp: py_get_def py_pos_def Let_def split: if_splits sum.splits)

declare backtrack_loop.simps [simp del]

definition backtrack :: "solver \<Rightarrow> error + solver" where
  "backtrack game = backtrack_loop (game\<lparr>backtrack_coord := backtrack_coord game - 1\<rparr>)"

definition set_cell :: "solver \<Rightarrow> error + (nat \<times> solver)" where
  "set_cell game =
     (case py_pos (length (solve_puzzle game)) (backtrack_coord game) of
        Inl e \<Rightarrow> Inl e
      | Inr k \<Rightarrow>
          (case set_number (solve_puzzle game ! k) game of
             Inl e \<Rightarrow> Inl e
           | Inr (c, game') \<Rightarrow> Inr (k, game'\<lparr>solve_puzzle := (solve_puzzle game')[k := c]\<rparr>)))"

definition reset_cell :: "nat \<Rightarrow> solver \<Rightarrow> error + solver" where
  "reset_cell k game =
     (let c = solve_puzzle game ! k;
          game' = game\<lparr>solve_puzzle := (solve_puzzle game)[k := c\<lparr>current_index := 0, number := 0\<rparr>]\<rparr>
      in case grid_store (puzzle game') (row c) (column c) 0 of
           Inl e \<Rightarrow> Inl e
         | Inr g \<Rightarrow> Inr (game'\<lparr>puzzle := g\<rparr>))"

lemma backtrack_loop_bounds:
  "backtrack_loop game = Inr game' \<Longrightarrow>
     backtrack_coord game' \<le> backtrack_coord game \<and>
     - int (length (solve_puzzle game)) \<le> backtrack_coord game' \<and>
     game' = game\<lparr>backtrack_coord := backtrack_coord game'\<rparr>"
proof (induction game rule: backtrack_loop.induct)
  case (1 game)
  from "1.prems" obtain c where c: "py_get (solve_puzzle game) (backtrack_coord game) = Inr c"
    by (subst (asm) backtrack_loop.simps) (auto split: sum.splits)
  then have lo: "- int (length (solve_puzzle game)) \<le> backtrack_coord game"
    by (auto simp: py_get_def py_pos_def Let_def split: if_splits sum.splits)
  show ?case
  proof (cases "solved c")
    case True
    with c "1.prems"
    have "backtrack_loop (game\<lparr>backtrack_coord := backtrack_coord game - 1\<rparr>) = Inr game'"
      by (subst (asm) backtrack_loop.simps) simp
    from "1.IH" [OF c True this] show ?thesis by simp
  next
    case False
    with c "1.prems" have "game' = game"
      by (subst (asm) backtrack_loop.simps) simp
    with lo show ?thesis by simp
  qed
qed

lemma backtrack_bounds:
  "backtrack game = Inr game' \<Longrightarrow>
     backtrack_coord game' < backtrack_coord game \<and>
     - int (length (solve_puzzle game)) \<le> backtrack_coord game' \<and>
     game' = game\<lparr>backtrack_coord := backtrack_coord game'\<rparr>"
  using backtrack_loop_bounds [of "game\<lparr>backtrack_coord := backtrack_coord game - 1\<rparr>" game']
  by (simp add: backtrack_def)

lemma reset_cell_keeps:
  "reset_cell k game = Inr game' \<Longrightarrow>
     backtrack_coord game' = backtrack_coord game \<and>
     length (solve_puzzle game') = length (solve_puzzle game)"
  by (auto simp: reset_cell_def Let_def split: sum.splits)

function decrement_cell :: "nat \<Rightarrow> solver \<Rightarrow> error + solver" where
  "decrement_cell k game =
     (let c = solve_puzzle game ! k in
      if int (current_index c) = int (length (possibilities c)) - 1 then
        (case reset_cell k game of
           Inl e \<Rightarrow> Inl e
         | Inr game1 \<Rightarrow>
             (case backtrack game1 of
                Inl e \<Rightarrow> Inl e
              | Inr game2 \<Rightarrow>
                  (case py_pos (length (solve_puzzle game2)) (backtrack_coord game2) of
                     Inl e \<Rightarrow> Inl e
                   | Inr k' \<Rightarrow> decrement_cell k' game2)))
      else Inr (game\<lparr>solve_puzzle :=
                  (solve_puzzle game)[k := c\<lparr>current_index := current_index c + 1\<rparr>]\<rparr>))"
  by pat_completeness auto
termination
proof (relation "measure (\<lambda>(k, game). nat (backtrack_coord game + int (length (solve_puzzle game)) + 1))")
  show "wf (measure (\<lambda>(k, game). nat (backtrack_coord game + int (length (solve_puzzle game)) + 1)))"
    by simp
next
  fix k game c game1 game2 k'
  assume r: "reset_cell k game = Inr game1" and b: "backtrack game1 = Inr game2"
  from reset_cell_keeps [OF r] backtrack_bounds [OF b]
  have "backtrack_coord game2 < backtrack_coord game"
    and "- int (length (solve_puzzle game)) \<le> backtrack_coord game2"
    and "length (solve_puzzle game2) = length (solve_puzzle game)"
    by (simp_all, metis solver.select_convs(2) solver.surjective solver.update_convs(4))
  then show "((k', game2), (k, game))
      \<in> measure (\<lambda>(k, game). nat (backtrack_coord game + int (length (solve_puzzle game)) + 1))"
    by simp
qed

declare decrement_cell.simps [simp del]

definition change_cells :: "nat \<Rightarrow> solver \<Rightarrow> error + solver" where
  "change_cells k game =
     (case is_valid (solve_puzzle game ! k) game of
        Inl e \<Rightarrow> Inl e
      | Inr v \<Rightarrow>
          if v then Inr (game\<lparr>backtrack_coord := backtrack_coord game + 1\<rparr>)
          else decrement_cell k game)"

text \<open>The method \<open>SudokuSolver.solve\<close>: one iteration of the search.\<close>

definition solver_solve :: "solver \<Rightarrow> error + solver" where
  "solver_solve game =
     (case move_forward game of
        Inl e \<Rightarrow> Inl e
      | Inr game1 \<Rightarrow>
          (case set_cell game1 of
             Inl e \<Rightarrow> Inl e
           | Inr (k, game2) \<Rightarrow>
               (case increment_value (solve_puzzle game2 ! k) game2 of
                  Inl e \<Rightarrow> Inl e
                | Inr (c, game3) \<Rightarrow>
                    change_cells k (game3\<lparr>solve_puzzle := (solve_puzzle game3)[k := c]\<rparr>))))"

text \<open>
  \<open>run_solve\<close> may loop forever. The model counts the iterations it may still run:
  \<open>None\<close> says that the loop was still running when the count was used up.
\<close>

fun run_solve :: "nat \<Rightarrow> solver \<Rightarrow> (error + solver) option" where
  "run_solve 0 game =
     (if backtrack_coord game \<le> int (length (solve_puzzle game)) - 1 then None
      else Some (Inr game))"
| "run_solve (Suc n) game =
     (if backtrack_coord game \<le> int (length (solve_puzzle game)) - 1 then
        (case solver_solve game of
           Inl e \<Rightarrow> Some (Inl e)
         | Inr game' \<Rightarrow> run_solve n game')
      else Some (Inr game))"

text \<open>The module's function \<open>solve\<close>.\<close>

definition solve :: "nat \<Rightarrow> grid \<Rightarrow> (error + grid) option" where
  "solve fuel p =
     (case initialize_board (new_solver p) of
        Inl e \<Rightarrow> Some (Inl e)
      | Inr game \<Rightarrow>
          (case run_solve fuel game of
             None \<Rightarrow> None
           | Some (Inl e) \<Rightarrow> Some (Inl e)
           | Some (Inr game') \<Rightarrow> Some (Inr (puzzle game'))))"

definition example_puzzle :: grid where
  "example_puzzle =
     [[5, 3, 0, 0, 7, 0, 0, 0, 0],
      [6, 0, 0, 1, 9, 5, 0, 0, 0],
      [0, 9, 8, 0, 0, 0, 0, 6, 0],
      [8, 0, 0, 0, 6, 0, 0, 0, 3],
      [4, 0, 0, 8, 0, 3, 0, 0, 1],
      [7, 0, 0, 0, 2, 0, 0, 0, 6],
      [0, 6, 0, 0, 0, 0, 2, 8, 0],
      [0, 0, 0, 4, 1, 9, 0, 0, 5],
      [0, 0, 0, 0, 8, 0, 0, 7, 9]]"

text \<open>The grid that the module's test expects for \<open>puzzle\<close>.\<close>

definition solution :: grid where
  "solution =
     [[5, 3, 4, 6, 7, 8, 9, 1, 2],
      [6, 7, 2, 1, 9, 5, 3, 4, 8],
      [1, 9, 8, 3, 4, 2, 5, 6, 7],
      [8, 5, 9, 7, 6, 1, 4, 2, 3],
      [4, 2, 6, 8, 5, 3, 7, 9, 1],
      [7, 1, 3, 9, 2, 4, 8, 5, 6],
      [9, 6, 1, 5, 3, 7, 2, 8, 4],
      [2, 8, 7, 4, 1, 9, 6, 3, 5],
      [3, 4, 5, 2, 8, 6, 1, 7, 9]]"

section \<open>Notions used to state the properties\<close>

subsection \<open>Grids, units and candidates\<close>

text \<open>A grid of nine rows of nine entries.\<close>

definition grid9 :: "grid \<Rightarrow> bool" where
  "grid9 g = (length g = 9 \<and> (\<forall>r \<in> set g. length r = 9))"

text \<open>The entries that \<open>find_possibilities\<close> removes for the cell in row \<open>r\<close> and column \<open>c\<close>:
  its row, its column and its box, in this order.\<close>

definition unit_items :: "grid \<Rightarrow> nat \<Rightarrow> nat \<Rightarrow> int list" where
  "unit_items g r c =
     g ! r @ map (\<lambda>rw. rw ! c) g @
     concat (map (\<lambda>i. take 3 (drop (c div 3 * 3) (g ! i))) [r div 3 * 3..<3 + r div 3 * 3])"

definition candidates :: "grid \<Rightarrow> nat \<Rightarrow> nat \<Rightarrow> int list" where
  "candidates g r c = filter (\<lambda>d. d \<notin> set (unit_items g r c)) [1, 2, 3, 4, 5, 6, 7, 8, 9]"

text \<open>The cell that the constructor returns for row \<open>r\<close> and column \<open>c\<close> of a grid.\<close>

definition built_cell :: "grid \<Rightarrow> nat \<Rightarrow> nat \<Rightarrow> cell" where
  "built_cell g r c =
     (if 0 < g ! r ! c then
        \<lparr>solved = True, number = g ! r ! c, possibilities = [], row = r, column = c,
         current_index = 0\<rparr>
      else
        \<lparr>solved = (length (candidates g r c) = 1), number = g ! r ! c,
         possibilities = candidates g r c, row = r, column = c, current_index = 0\<rparr>)"

definition board_cells :: "grid \<Rightarrow> cell list" where
  "board_cells g = concat (map (\<lambda>r. map (built_cell g r) [0..<9]) [0..<9])"

definition start_board :: "grid \<Rightarrow> solver" where
  "start_board g = (new_solver g)\<lparr>solve_puzzle := board_cells g\<rparr>"

text \<open>What \<open>is_valid\<close> computes for a position of a grid.\<close>

definition valid_at :: "grid \<Rightarrow> nat \<Rightarrow> nat \<Rightarrow> bool" where
  "valid_at g r c =
     (check_area (g ! r) \<and> check_area (map (\<lambda>rw. rw ! c) g) \<and>
      check_area (concat (map (\<lambda>i. take 3 (drop (c div 3 * 3) (g ! i)))
                     [r div 3 * 3..<3 + r div 3 * 3])))"

text \<open>Writing one entry of a grid, and reading the entry of the cell with index \<open>k\<close>.\<close>

definition put :: "grid \<Rightarrow> nat \<Rightarrow> nat \<Rightarrow> int \<Rightarrow> grid" where
  "put g r c v = g[r := (g ! r)[c := v]]"

definition entry :: "grid \<Rightarrow> nat \<Rightarrow> int" where
  "entry g k = g ! (k div 9) ! (k mod 9)"

text \<open>The units as lists of positions.\<close>

definition at :: "grid \<Rightarrow> nat \<times> nat \<Rightarrow> int" where
  "at g p = g ! fst p ! snd p"

definition row_pos :: "nat \<Rightarrow> (nat \<times> nat) list" where
  "row_pos r = map (\<lambda>j. (r, j)) [0..<9]"

definition col_pos :: "nat \<Rightarrow> (nat \<times> nat) list" where
  "col_pos c = map (\<lambda>i. (i, c)) [0..<9]"

definition box_pos :: "nat \<Rightarrow> nat \<Rightarrow> (nat \<times> nat) list" where
  "box_pos r c = map (\<lambda>i. (r div 3 * 3 + i div 3, c div 3 * 3 + i mod 3)) [0..<9]"

subsection \<open>Assignments\<close>

text \<open>A cell and the board after the cell took its candidate number \<open>k\<close>; and the same
  for the cell with index \<open>k\<close> of a solver taking its candidate number \<open>j\<close>.\<close>

definition with_candidate :: "cell \<Rightarrow> solver \<Rightarrow> nat \<Rightarrow> cell \<times> solver" where
  "with_candidate c game k =
     (c\<lparr>current_index := k, number := possibilities c ! k\<rparr>,
      game\<lparr>puzzle := put (puzzle game) (row c) (column c) (possibilities c ! k)\<rparr>)"

definition place :: "nat \<Rightarrow> nat \<Rightarrow> solver \<Rightarrow> solver" where
  "place k j s =
     (let c = solve_puzzle s ! k; v = possibilities c ! j
      in s\<lparr>puzzle := put (puzzle s) (row c) (column c) v,
            solve_puzzle := (solve_puzzle s)[k := c\<lparr>current_index := j, number := v\<rparr>]\<rparr>)"

text \<open>The cell that Python's \<open>solve_puzzle[j]\<close> reads, for \<open>j\<close> from \<open>-n\<close> to \<open>n - 1\<close>.\<close>

definition cell_at :: "solver \<Rightarrow> int \<Rightarrow> cell" where
  "cell_at s j =
     solve_puzzle s ! nat (if j < 0 then j + int (length (solve_puzzle s)) else j)"

subsection \<open>Inputs and the states of the search\<close>

text \<open>An input: a grid of nine by nine entries, none of them negative.\<close>

definition input_grid :: "grid \<Rightarrow> bool" where
  "input_grid g = (grid9 g \<and> (\<forall>r \<in> set g. \<forall>x \<in> set r. 0 \<le> x))"

text \<open>A grid with every entry from 1 to 9 and no number twice in a row, a column or a box.\<close>

definition solved_grid :: "grid \<Rightarrow> bool" where
  "solved_grid g =
     (grid9 g \<and> (\<forall>r \<in> set g. \<forall>x \<in> set r. 1 \<le> x \<and> x \<le> 9) \<and>
      (\<forall>r \<in> {0..<9}. distinct (g ! r)) \<and>
      (\<forall>c \<in> {0..<9}. distinct (map (\<lambda>rw. rw ! c) g)) \<and>
      (\<forall>r \<in> {0..<9}. \<forall>c \<in> {0..<9}. distinct (map (at g) (box_pos r c))))"

text \<open>The cell with index \<open>k\<close> of a board whose input was \<open>g0\<close> and whose grid is \<open>pz\<close>:
  it is at its position, has the flag and the candidates it was built with, a solved cell has
  the entry of the input, a clue keeps its number, the index of an open cell is inside its
  candidates, and an open cell with an entry is valid.\<close>

definition cell_ok :: "grid \<Rightarrow> grid \<Rightarrow> nat \<Rightarrow> cell \<Rightarrow> bool" where
  "cell_ok g0 pz k c =
     (row c = k div 9 \<and> column c = k mod 9 \<and>
      solved c = solved (built_cell g0 (k div 9) (k mod 9)) \<and>
      possibilities c = possibilities (built_cell g0 (k div 9) (k mod 9)) \<and>
      (solved c \<longrightarrow> entry pz k = entry g0 k) \<and>
      (0 < entry g0 k \<longrightarrow> number c = entry g0 k) \<and>
      (\<not> solved c \<longrightarrow> current_index c < length (possibilities c) \<or> possibilities c = []) \<and>
      (\<not> solved c \<and> entry pz k \<noteq> 0 \<longrightarrow> valid_at pz (k div 9) (k mod 9)))"

definition board_ok :: "grid \<Rightarrow> solver \<Rightarrow> bool" where
  "board_ok g0 s =
     (box_size s = 3 \<and> grid9 (puzzle s) \<and> length (solve_puzzle s) = 81 \<and>
      (\<forall>k<81. cell_ok g0 (puzzle s) k (solve_puzzle s ! k)))"

text \<open>The open cells before the cursor hold the entry that the grid has for them.\<close>

definition passed_ok :: "solver \<Rightarrow> bool" where
  "passed_ok s =
     (\<forall>k<81. int k < backtrack_coord s \<and> \<not> solved (solve_puzzle s ! k) \<longrightarrow>
        entry (puzzle s) k \<noteq> 0 \<and> number (solve_puzzle s ! k) = entry (puzzle s) k)"

text \<open>
  \<open>reaches s t\<close>: the loop of \<open>run_solve\<close>, started in \<open>s\<close>, is in \<open>t\<close> at the head of some
  iteration.
\<close>

inductive reaches :: "solver \<Rightarrow> solver \<Rightarrow> bool" for s :: solver where
  start: "reaches s s"
| step: "reaches s t \<Longrightarrow> backtrack_coord t \<le> int (length (solve_puzzle t)) - 1 \<Longrightarrow>
         solver_solve t = Inr u \<Longrightarrow> reaches s u"

subsection \<open>Example boards\<close>

text \<open>A grid with two clues 5 in its first row, the grid \<open>solution\<close> with four entries
  removed, and what the solver returns for the latter.\<close>

definition dup_row_puzzle :: grid where
  "dup_row_puzzle =
     [[5, 5, 0, 0, 0, 0, 0, 0, 0],
      [0, 0, 0, 0, 0, 0, 0, 0, 0],
      [0, 0, 0, 0, 0, 0, 0, 0, 0],
      [0, 0, 0, 0, 0, 0, 0, 0, 0],
      [0, 0, 0, 0, 0, 0, 0, 0, 0],
      [0, 0, 0, 0, 0, 0, 0, 0, 0],
      [0, 0, 0, 0, 0, 0, 0, 0, 0],
      [0, 0, 0, 0, 0, 0, 0, 0, 0],
      [0, 0, 0, 0, 0, 0, 0, 0, 0]]"

definition two_open_puzzle :: grid where
  "two_open_puzzle =
     [[0, 3, 4, 0, 7, 8, 9, 1, 2],
      [0, 7, 2, 1, 9, 0, 3, 4, 8],
      [1, 9, 8, 3, 4, 2, 5, 6, 7],
      [8, 5, 9, 7, 6, 1, 4, 2, 3],
      [4, 2, 6, 8, 5, 3, 7, 9, 1],
      [7, 1, 3, 9, 2, 4, 8, 5, 6],
      [9, 6, 1, 5, 3, 7, 2, 8, 4],
      [2, 8, 7, 4, 1, 9, 6, 3, 5],
      [3, 4, 5, 2, 8, 6, 1, 7, 9]]"

definition two_open_result :: grid where
  "two_open_result =
     [[5, 3, 4, 0, 7, 8, 9, 1, 2],
      [6, 7, 2, 1, 9, 0, 3, 4, 8],
      [1, 9, 8, 3, 4, 2, 5, 6, 7],
      [8, 5, 9, 7, 6, 1, 4, 2, 3],
      [4, 2, 6, 8, 5, 3, 7, 9, 1],
      [7, 1, 3, 9, 2, 4, 8, 5, 6],
      [9, 6, 1, 5, 3, 7, 2, 8, 4],
      [2, 8, 7, 4, 1, 9, 6, 3, 5],
      [3, 4, 5, 2, 8, 6, 1, 7, 9]]"

section \<open>Well-formed boards and what the accessors return on them\<close>

lemma int_sqrt_9: "int_sqrt 9 = 3"
  by code_simp

lemma py_get_nat: "k < length xs \<Longrightarrow> py_get xs (int k) = Inr (xs ! k)"
  by (simp add: py_get_def py_pos_def)

lemma grid9_row: "grid9 g \<Longrightarrow> r < 9 \<Longrightarrow> length (g ! r) = 9"
  by (simp add: grid9_def)

lemma get_row_grid9:
  "grid9 (puzzle game) \<Longrightarrow> r < 9 \<Longrightarrow> get_row game r = Inr (puzzle game ! r)"
  by (simp add: get_row_def py_get_nat grid9_def)

lemma column_of_rows_ok:
  "\<forall>r \<in> set g. c < length r \<Longrightarrow> column_of_rows g c = Inr (map (\<lambda>r. r ! c) g)"
  by (induction g) (simp_all add: py_get_nat)

lemma get_column_grid9:
  "grid9 (puzzle game) \<Longrightarrow> c < 9 \<Longrightarrow>
     get_column game c = Inr (map (\<lambda>r. r ! c) (puzzle game))"
  by (simp add: get_column_def column_of_rows_ok grid9_def)

lemma box_rows_ok:
  "\<forall>i \<in> set is. i < length g \<Longrightarrow>
     box_rows g is sy bs = Inr (concat (map (\<lambda>i. take bs (drop sy (g ! i))) is))"
  by (induction "is") (simp_all add: py_get_nat)

lemma box_start_le: "i < 9 \<Longrightarrow> i div 3 * 3 + 3 \<le> (9::nat)"
  by arith

lemma get_box_grid9:
  assumes "grid9 (puzzle game)" "box_size game = 3" "r < 9" "c < 9"
  shows "get_box game r c =
     Inr (concat (map (\<lambda>i. take 3 (drop (c div 3 * 3) (puzzle game ! i)))
            [r div 3 * 3..<3 + r div 3 * 3]))"
proof -
  have "\<forall>i \<in> set [r div 3 * 3..<3 + r div 3 * 3]. i < length (puzzle game)"
    using assms box_start_le [of r] by (auto simp: grid9_def)
  then show ?thesis
    using assms
    by (simp add: get_box_def get_box_coordinates_def find_box_start_def box_rows_ok)
qed

lemma upt3: "[n..<3 + n] = [n, n + 1, n + 2]"
  by (simp add: upt_rec numeral_3_eq_3)

lemma take3_drop:
  "k + 3 \<le> length xs \<Longrightarrow> take 3 (drop k xs) = [xs ! k, xs ! (k + 1), xs ! (k + 2)]"
  by (simp add: list_eq_iff_nth_eq nth_Cons' numeral_3_eq_3 less_Suc_eq) 

subsection \<open>Candidates\<close>

lemma fold_remove_filter:
  "distinct ps \<Longrightarrow>
     fold (\<lambda>item ps. if item \<in> set ps then remove1 item ps else ps) items ps =
       filter (\<lambda>d. d \<notin> set items) ps"
proof (induction items arbitrary: ps)
  case Nil
  then show ?case by simp
next
  case (Cons a items)
  have r: "remove1 a ps = filter (\<lambda>d. d \<noteq> a) ps"
    using Cons.prems by (simp add: distinct_remove1_removeAll removeAll_filter_not_eq) metis
  have n: "a \<notin> set ps \<Longrightarrow> filter (\<lambda>d. d \<noteq> a) ps = ps"
    by (auto simp: filter_id_conv)
  have "fold (\<lambda>item ps. if item \<in> set ps then remove1 item ps else ps) (a # items) ps =
        fold (\<lambda>item ps. if item \<in> set ps then remove1 item ps else ps) items
          (filter (\<lambda>d. d \<noteq> a) ps)"
    using r n by (cases "a \<in> set ps") simp_all
  also have "\<dots> = filter (\<lambda>d. d \<notin> set items) (filter (\<lambda>d. d \<noteq> a) ps)"
    using Cons.prems by (intro Cons.IH) simp
  also have "\<dots> = filter (\<lambda>d. d \<notin> set (a # items)) ps"
    by (simp add: conj_commute) 
  finally show ?case .
qed

lemma find_possibilities_built:
  assumes "grid9 (puzzle game)" "box_size game = 3" "row c < 9" "column c < 9"
    and "distinct (possibilities c)"
  shows "find_possibilities c game =
     handle_one_possibility
       (c\<lparr>possibilities :=
            filter (\<lambda>d. d \<notin> set (unit_items (puzzle game) (row c) (column c)))
              (possibilities c)\<rparr>) game"
proof -
  have "find_possibilities c game =
      handle_one_possibility
        (c\<lparr>possibilities :=
             fold (\<lambda>item ps. if item \<in> set ps then remove1 item ps else ps)
               (unit_items (puzzle game) (row c) (column c)) (possibilities c)\<rparr>) game"
    unfolding find_possibilities_def unit_items_def
    by (simp add: get_row_grid9 [OF assms(1,3)] get_column_grid9 [OF assms(1,4)]
        get_box_grid9 [OF assms(1,2,3,4)] del: fold_append)
  then show ?thesis
    by (simp only: fold_remove_filter [OF assms(5)])
qed

lemma handle_one_possibility_result:
  "handle_one_possibility c game =
     Inr (if length (possibilities c) = 1 then c\<lparr>solved := True\<rparr> else c, game)"
  by (simp add: handle_one_possibility_def set_number_def)

lemma new_cell_built:
  assumes "grid9 (puzzle game)" "box_size game = 3" "r < 9" "c < 9"
  shows "new_cell c r (puzzle game ! r ! c) game = Inr (built_cell (puzzle game) r c, game)"
proof (cases "0 < puzzle game ! r ! c")
  case True
  then show ?thesis by (simp add: new_cell_def built_cell_def)
next
  case False
  define c0 where "c0 = \<lparr>solved = False, number = puzzle game ! r ! c,
      possibilities = [1, 2, 3, 4, 5, 6, 7, 8, 9], row = r, column = c, current_index = 0\<rparr>"
  have n: "new_cell c r (puzzle game ! r ! c) game = find_possibilities c0 game"
    using False by (simp add: new_cell_def c0_def)
  have f: "find_possibilities c0 game =
      handle_one_possibility (c0\<lparr>possibilities := candidates (puzzle game) r c\<rparr>) game"
    using find_possibilities_built [of game c0] assms
    by (simp add: c0_def candidates_def)
  show ?thesis
    unfolding n f using False
    by (simp add: handle_one_possibility_result built_cell_def c0_def)
qed

lemma example_grid9: "grid9 example_puzzle"
  by (simp add: grid9_def example_puzzle_def)

lemma new_solver_grid9:
  "grid9 g \<Longrightarrow> box_size (new_solver g) = 3 \<and> puzzle (new_solver g) = g"
  by (simp add: new_solver_def grid9_def int_sqrt_9)

lemma example_candidates_4_4: "candidates example_puzzle 4 4 = [5]"
  by code_simp

lemma digit_mem: "(d::int) \<in> set [1, 2, 3, 4, 5, 6, 7, 8, 9] \<longleftrightarrow> 1 \<le> d \<and> d \<le> 9"
  by (simp del: One_nat_def) presburger

lemma digits_1_9: "set [1, 2, 3, 4, 5, 6, 7, 8, 9 :: int] = {1..9}"
  using digit_mem by (simp only: set_eq_iff atLeastAtMost_iff) blast

lemma set_row9: "length xs = 9 \<Longrightarrow> set xs = {xs ! j | j. j < 9}"
  by (auto simp: set_conv_nth)

lemma set_column9: "length g = 9 \<Longrightarrow> set (map (\<lambda>rw. rw ! c) g) = {g ! i ! c | i. i < 9}"
proof -
  assume l: "length g = 9"
  have "set (map (\<lambda>rw. rw ! c) g) = (\<lambda>rw. rw ! c) ` {g ! i | i. i < 9}"
    using l by (simp only: set_map set_conv_nth [of g])
  also have "\<dots> = {g ! i ! c | i. i < 9}"
    by blast
  finally show ?thesis .
qed

lemma block3:
  "{F a b | a b. a < (3::nat) \<and> b < (3::nat)} =
     {F 0 0, F 0 1, F 0 2, F 1 0, F 1 1, F 1 2, F 2 0, F 2 1, F 2 2}"
proof -
  have s: "{a::nat. a < 3} = {0, 1, 2}"
    by auto
  have "{F a b | a b. a < 3 \<and> b < 3} = (\<lambda>(a, b). F a b) ` ({a. a < 3} \<times> {b. b < 3})"
    by auto
  also have "\<dots> = {F 0 0, F 0 1, F 0 2, F 1 0, F 1 1, F 1 2, F 2 0, F 2 1, F 2 2}"
    unfolding s by (simp add: insert_commute)
  finally show ?thesis .
qed

lemma set_box9:
  assumes "grid9 g" "r < 9" "c < 9"
  shows "set (concat (map (\<lambda>i. take 3 (drop (c div 3 * 3) (g ! i)))
            [r div 3 * 3..<3 + r div 3 * 3])) =
         {g ! (r div 3 * 3 + a) ! (c div 3 * 3 + b) | a b. a < 3 \<and> b < 3}"
proof -
  have r: "r div 3 * 3 + 2 < 9" and c: "c div 3 * 3 + 3 \<le> 9"
    using box_start_le [of r] box_start_le [of c] assms by simp_all
  have len: "\<And>k. k < 9 \<Longrightarrow> c div 3 * 3 + 3 \<le> length (g ! k)"
    using assms(1) c by (simp add: grid9_def)
  have "concat (map (\<lambda>i. take 3 (drop (c div 3 * 3) (g ! i))) [r div 3 * 3..<3 + r div 3 * 3]) =
     [g ! (r div 3 * 3) ! (c div 3 * 3), g ! (r div 3 * 3) ! (c div 3 * 3 + 1),
      g ! (r div 3 * 3) ! (c div 3 * 3 + 2),
      g ! (r div 3 * 3 + 1) ! (c div 3 * 3), g ! (r div 3 * 3 + 1) ! (c div 3 * 3 + 1),
      g ! (r div 3 * 3 + 1) ! (c div 3 * 3 + 2),
      g ! (r div 3 * 3 + 2) ! (c div 3 * 3), g ! (r div 3 * 3 + 2) ! (c div 3 * 3 + 1),
      g ! (r div 3 * 3 + 2) ! (c div 3 * 3 + 2)]"
    using r by (simp add: upt3 take3_drop len)
  then show ?thesis
    by (simp add: block3 [of "\<lambda>a b. g ! (r div 3 * 3 + a) ! (c div 3 * 3 + b)"] insert_commute)
qed

lemma example_candidates_0_2: "candidates example_puzzle 0 2 = [1, 2, 4]"
  by code_simp

subsection \<open>Validity and the cell's own loop\<close>

lemma is_valid_grid9:
  assumes "grid9 (puzzle game)" "box_size game = 3" "row c < 9" "column c < 9"
  shows "is_valid c game = Inr (valid_at (puzzle game) (row c) (column c))"
  by (simp add: is_valid_def valid_at_def get_row_grid9 [OF assms(1,3)]
      get_column_grid9 [OF assms(1,4)] get_box_grid9 [OF assms])

lemma grid9_nth: "grid9 g \<longleftrightarrow> length g = 9 \<and> (\<forall>i<9. length (g ! i) = 9)"
  by (auto simp: grid9_def all_set_conv_all_nth)

lemma grid9_put: "grid9 g \<Longrightarrow> grid9 (put g r c v)"
  by (cases "r < length g") (auto simp: grid9_nth put_def nth_list_update list_update_beyond)

lemma put_put: "put (put g r c v) r c w = put g r c w"
  by (cases "r < length g") (simp_all add: put_def list_update_beyond)

lemma grid_store_grid9:
  "grid9 g \<Longrightarrow> r < 9 \<Longrightarrow> c < 9 \<Longrightarrow> grid_store g r c v = Inr (put g r c v)"
  by (simp add: grid_store_def put_def grid9_def)

lemma set_number_open:
  assumes "grid9 (puzzle game)" "row c < 9" "column c < 9" "\<not> solved c"
    "k < length (possibilities c)"
  shows "set_number (c\<lparr>current_index := k\<rparr>) game = Inr (with_candidate c game k)"
  using assms
  by (simp add: set_number_def py_get_nat grid_store_grid9 with_candidate_def)

lemma with_candidate_again:
  "with_candidate (fst (with_candidate c game i)) (snd (with_candidate c game i)) k =
     with_candidate c game k"
  by (simp add: with_candidate_def put_put)

lemma with_candidate_fields:
  "possibilities (fst (with_candidate c game k)) = possibilities c"
  "current_index (fst (with_candidate c game k)) = k"
  "row (fst (with_candidate c game k)) = row c"
  "column (fst (with_candidate c game k)) = column c"
  "solved (fst (with_candidate c game k)) = solved c"
  "box_size (snd (with_candidate c game k)) = box_size game"
  "puzzle (snd (with_candidate c game k)) =
     put (puzzle game) (row c) (column c) (possibilities c ! k)"
  by (simp_all add: with_candidate_def)

lemma increment_value_run:
  assumes "grid9 (puzzle game)" "box_size game = 3" "row c < 9" "column c < 9"
    and "\<not> solved c" "current_index c < length (possibilities c)"
  shows "\<exists>c' game'. increment_value c game = Inr (c', game') \<and>
     current_index c \<le> current_index c' \<and> current_index c' < length (possibilities c) \<and>
     (is_valid c' game' = Inr True \<or> current_index c' = length (possibilities c) - 1) \<and>
     (is_valid c game = Inr True \<longrightarrow> c' = c \<and> game' = game) \<and>
     (current_index c' = current_index c \<longrightarrow> c' = c \<and> game' = game) \<and>
     (current_index c' \<noteq> current_index c \<longrightarrow>
        is_valid c game = Inr False \<and>
        (c', game') = with_candidate c game (current_index c') \<and>
        (\<forall>k. current_index c < k \<and> k < current_index c' \<longrightarrow>
             is_valid (fst (with_candidate c game k)) (snd (with_candidate c game k)) =
               Inr False))"
  using assms
proof (induction "length (possibilities c) - current_index c" arbitrary: c game rule: less_induct)
  case less
  note v = is_valid_grid9 [OF less.prems(1,2,3,4)]
  show ?case
  proof (cases "\<not> valid_at (puzzle game) (row c) (column c) \<and>
                 int (current_index c) < int (length (possibilities c)) - 1")
    case False
    then have "increment_value c game = Inr (c, game)"
      by (subst increment_value.simps) (auto simp: v)
    moreover have "valid_at (puzzle game) (row c) (column c) \<or>
        current_index c = length (possibilities c) - 1"
      using False less.prems(6) by auto
    ultimately show ?thesis
      using less.prems(6) by (simp add: v)
  next
    case True
    let ?k = "Suc (current_index c)"
    obtain c1 game1 where w: "with_candidate c game ?k = (c1, game1)"
      by (cases "with_candidate c game ?k")
    have k: "?k < length (possibilities c)"
      using True by auto
    have s: "set_number (c\<lparr>current_index := ?k\<rparr>) game = Inr (c1, game1)"
      using set_number_open [OF less.prems(1,3,4,5) k] w by simp
    have f: "possibilities c1 = possibilities c" "current_index c1 = ?k" "row c1 = row c"
      "column c1 = column c" "solved c1 = solved c" "box_size game1 = box_size game"
      "puzzle game1 = put (puzzle game) (row c) (column c) (possibilities c ! ?k)"
      using with_candidate_fields [of c game ?k] w by simp_all
    have again: "\<And>j. with_candidate c1 game1 j = with_candidate c game j"
      using with_candidate_again [of c game ?k] w by simp
    have i: "increment_value c game = increment_value c1 game1"
      using True by (subst increment_value.simps) (simp add: v s)
    have "length (possibilities c1) - current_index c1
        < length (possibilities c) - current_index c"
      using f k by simp
    moreover have "grid9 (puzzle game1)"
      using f less.prems(1) by (simp add: grid9_put)
    ultimately obtain c' game' where r: "increment_value c1 game1 = Inr (c', game')"
      "current_index c1 \<le> current_index c'" "current_index c' < length (possibilities c1)"
      "is_valid c' game' = Inr True \<or> current_index c' = length (possibilities c1) - 1"
      "current_index c' \<noteq> current_index c1 \<longrightarrow>
        is_valid c1 game1 = Inr False \<and>
        (c', game') = with_candidate c1 game1 (current_index c') \<and>
        (\<forall>k. current_index c1 < k \<and> k < current_index c' \<longrightarrow>
             is_valid (fst (with_candidate c1 game1 k)) (snd (with_candidate c1 game1 k)) =
               Inr False)"
      "current_index c' = current_index c1 \<longrightarrow> c' = c1 \<and> game' = game1"
      using less.hyps [of c1 game1] less.prems f k by auto
    have inv: "is_valid c game = Inr False"
      using True by (simp add: v)
    have e1: "(c', game') = with_candidate c game (current_index c')"
    proof (cases "current_index c' = current_index c1")
      case True
      then have "c' = c1 \<and> game' = game1"
        using r(4,5,6) by auto
      with w f show ?thesis by simp
    next
      case False
      then show ?thesis using r(5) again by simp
    qed
    have e2: "\<forall>j. current_index c < j \<and> j < current_index c' \<longrightarrow>
        is_valid (fst (with_candidate c game j)) (snd (with_candidate c game j)) = Inr False"
    proof (intro allI impI)
      fix j
      assume j: "current_index c < j \<and> j < current_index c'"
      then have ne: "current_index c' \<noteq> current_index c1"
        using f by simp
      show "is_valid (fst (with_candidate c game j)) (snd (with_candidate c game j)) = Inr False"
      proof (cases "j = current_index c1")
        case True
        then show ?thesis using ne r(5) w f by simp
      next
        case False
        then have "current_index c1 < j \<and> j < current_index c'"
          using j f by simp
        then show ?thesis using ne r(5) again by simp
      qed
    qed
    have "current_index c \<le> current_index c'" "current_index c' < length (possibilities c)"
      "is_valid c' game' = Inr True \<or> current_index c' = length (possibilities c) - 1"
      "current_index c' \<noteq> current_index c"
      using r(2,3,4) f by simp_all
    moreover have "increment_value c game = Inr (c', game')"
      using i r(1) by simp
    ultimately show ?thesis
      using inv e1 e2 by (intro exI [of _ c'] exI [of _ game']) (simp del: prod.inject)
  qed
qed

lemma dup_row_increment:
  "increment_value
     \<lparr>solved = False, number = 0, possibilities = [1, 2, 3, 4, 6, 7, 8, 9], row = 0,
      column = 2, current_index = 0\<rparr> (new_solver dup_row_puzzle) =
   Inr (\<lparr>solved = False, number = 9, possibilities = [1, 2, 3, 4, 6, 7, 8, 9], row = 0,
         column = 2, current_index = 7\<rparr>,
        (new_solver dup_row_puzzle)\<lparr>puzzle := put dup_row_puzzle 0 2 9\<rparr>)"
  by code_simp

lemma dup_row_invalid:
  "is_valid \<lparr>solved = False, number = 9, possibilities = [1, 2, 3, 4, 6, 7, 8, 9], row = 0,
         column = 2, current_index = 7\<rparr>
     ((new_solver dup_row_puzzle)\<lparr>puzzle := put dup_row_puzzle 0 2 9\<rparr>) = Inr False"
  by code_simp

subsection \<open>The board after \<open>initialize_board\<close>\<close>

lemma init_row_built:
  assumes "grid9 (puzzle game)" "box_size game = 3" "r < 9" "\<forall>c \<in> set cs. c < 9"
  shows "init_row r cs game =
     Inr (game\<lparr>solve_puzzle := solve_puzzle game @ map (built_cell (puzzle game) r) cs\<rparr>)"
  using assms
proof (induction cs arbitrary: game)
  case Nil
  then show ?case by simp
next
  case (Cons c cs)
  have n: "new_cell c r (puzzle game ! r ! c) game = Inr (built_cell (puzzle game) r c, game)"
    using new_cell_built [of game r c] Cons.prems by simp
  show ?case
    using Cons.IH [of "game\<lparr>solve_puzzle := solve_puzzle game @ [built_cell (puzzle game) r c]\<rparr>"]
      Cons.prems
    by (simp add: n)
qed

lemma init_rows_built:
  assumes "grid9 (puzzle game)" "box_size game = 3" "\<forall>r \<in> set rs. r < 9"
  shows "init_rows rs game =
     Inr (game\<lparr>solve_puzzle := solve_puzzle game @
            concat (map (\<lambda>r. map (built_cell (puzzle game) r) [0..<9]) rs)\<rparr>)"
  using assms
proof (induction rs arbitrary: game)
  case Nil
  then show ?case by simp
next
  case (Cons r rs)
  have l: "length (puzzle game ! r) = 9"
    using Cons.prems by (simp add: grid9_nth)
  have i: "init_row r [0..<9] game =
     Inr (game\<lparr>solve_puzzle := solve_puzzle game @ map (built_cell (puzzle game) r) [0..<9]\<rparr>)"
    using init_row_built [of game r "[0..<9]"] Cons.prems by simp
  show ?case
    using Cons.IH [of "game\<lparr>solve_puzzle := solve_puzzle game @ map (built_cell (puzzle game) r) [0..<9]\<rparr>"]
      Cons.prems
    by (simp add: l i)
qed

lemma initialize_board_built:
  assumes "grid9 g"
  shows "initialize_board (new_solver g) = Inr ((new_solver g)\<lparr>solve_puzzle := board_cells g\<rparr>)"
proof -
  have "length g = 9"
    using assms by (simp add: grid9_def)
  then show ?thesis
    using init_rows_built [of "new_solver g" "[0..<9]"] new_solver_grid9 [OF assms] assms
    by (simp add: initialize_board_def board_cells_def new_solver_def)
qed

lemma concat_rows_nth:
  "k < n * m \<Longrightarrow>
     length (concat (map (\<lambda>r. map (f r) [0..<m]) [0..<n])) = n * m \<and>
     concat (map (\<lambda>r. map (f r) [0..<m]) [0..<n]) ! k = f (k div m) (k mod m)"
proof (induction n arbitrary: k)
  case 0
  then show ?case by simp
next
  case (Suc n)
  have len: "length (concat (map (\<lambda>r. map (f r) [0..<m]) [0..<n])) = n * m"
    by (induction n) simp_all
  show ?case
  proof (cases "k < n * m")
    case True
    then show ?thesis
      using Suc.IH [of k] len by (simp add: nth_append)
  next
    case False
    have lo: "m * n \<le> k" and hi: "k < m * Suc n"
      using False Suc.prems by (simp_all add: not_less mult.commute)
    have d: "k div m = n"
      using lo hi by (rule div_nat_eqI)
    have "k mod m = k - k div m * m"
      by (simp add: modulo_nat_def)
    with d have "k div m = n" "k mod m = k - n * m" "k - n * m < m"
      using lo hi by (simp_all add: mult.commute less_diff_conv2)
    then show ?thesis
      using False len by (simp add: nth_append)
  qed
qed

lemma board_cells_length: "length (board_cells g) = 81"
  using concat_rows_nth [of 0 9 9 "built_cell g"] by (simp add: board_cells_def)

lemma board_cells_nth: "k < 81 \<Longrightarrow> board_cells g ! k = built_cell g (k div 9) (k mod 9)"
  using concat_rows_nth [of k 9 9 "built_cell g"] by (simp add: board_cells_def)

subsection \<open>Units as lists of positions\<close>

lemma upt9: "[0..<9] = [0, 1, 2, 3, 4, 5, 6, 7, 8]"
  by code_simp

lemma check_area_distinct: "check_area xs \<longleftrightarrow> distinct (filter (\<lambda>x. x \<noteq> 0) xs)"
proof -
  have "length ys = length (remdups ys) \<longleftrightarrow> distinct ys" for ys :: "int list"
    by (metis length_remdups_eq remdups_id_iff_distinct)
  then show ?thesis
    by (simp add: check_area_def Let_def)
qed

lemma row_as_pos: "length (g ! r) = 9 \<Longrightarrow> g ! r = map (at g) (row_pos r)"
  by (simp add: row_pos_def at_def list_eq_iff_nth_eq)

lemma col_as_pos: "length g = 9 \<Longrightarrow> map (\<lambda>rw. rw ! c) g = map (at g) (col_pos c)"
  by (simp add: col_pos_def at_def list_eq_iff_nth_eq)

lemma box_as_pos:
  assumes "grid9 g" "r < 9" "c < 9"
  shows "concat (map (\<lambda>i. take 3 (drop (c div 3 * 3) (g ! i))) [r div 3 * 3..<3 + r div 3 * 3]) =
     map (at g) (box_pos r c)"
proof -
  have r: "r div 3 * 3 + 2 < 9" and c: "c div 3 * 3 + 3 \<le> 9"
    using box_start_le [of r] box_start_le [of c] assms by simp_all
  have len: "\<And>k. k < 9 \<Longrightarrow> c div 3 * 3 + 3 \<le> length (g ! k)"
    using assms(1) c by (simp add: grid9_def)
  show ?thesis
    using r by (simp add: upt3 take3_drop len box_pos_def upt9 at_def)
qed

lemma valid_at_pos:
  assumes "grid9 g" "r < 9" "c < 9"
  shows "valid_at g r c \<longleftrightarrow>
     check_area (map (at g) (row_pos r)) \<and> check_area (map (at g) (col_pos c)) \<and>
     check_area (map (at g) (box_pos r c))"
proof -
  have "length (g ! r) = 9" "length g = 9"
    using assms by (simp_all add: grid9_nth)
  then show ?thesis
    unfolding valid_at_def box_as_pos [OF assms]
    using row_as_pos [of g r] col_as_pos [of g c] by simp
qed

lemma at_put:
  "r < length g \<Longrightarrow> c < length (g ! r) \<Longrightarrow>
     at (put g r c v) p = (if p = (r, c) then v else at g p)"
  by (cases p) (auto simp: at_def put_def nth_list_update)

lemma row_pos_mem: "(r, c) \<in> set (row_pos r') \<Longrightarrow> row_pos r' = row_pos r"
  by (auto simp: row_pos_def)

lemma col_pos_mem: "(r, c) \<in> set (col_pos c') \<Longrightarrow> col_pos c' = col_pos c"
  by (auto simp: col_pos_def)

lemma box_pos_mem:
  assumes "(r, c) \<in> set (box_pos r' c')"
  shows "box_pos r' c' = box_pos r c"
proof -
  from assms obtain i where i: "i < 9" "r = r' div 3 * 3 + i div 3" "c = c' div 3 * 3 + i mod 3"
    by (auto simp: box_pos_def)
  have "i div 3 < 3" "i mod 3 < 3"
    using i(1) by simp_all
  then have "r div 3 = r' div 3" "c div 3 = c' div 3"
    using i(2,3) by simp_all
  then show ?thesis
    by (simp add: box_pos_def)
qed

lemma check_area_zero:
  "check_area (map f ps) \<Longrightarrow> check_area (map (\<lambda>p. if p = q then 0 else f p) ps)"
  unfolding check_area_distinct
proof (induction ps)
  case Nil
  then show ?case by simp
next
  case (Cons p ps)
  have sub: "set (filter (\<lambda>x. x \<noteq> 0) (map (\<lambda>p. if p = q then 0 else f p) ps))
      \<subseteq> set (filter (\<lambda>x. x \<noteq> 0) (map f ps))"
    by auto
  have d: "distinct (filter (\<lambda>x. x \<noteq> 0) (map f ps))"
    using Cons.prems by (simp split: if_splits)
  show ?case
  proof (cases "p = q \<or> f p = 0")
    case True
    then show ?thesis using Cons.IH [OF d] by auto
  next
    case False
    then have "f p \<notin> set (filter (\<lambda>x. x \<noteq> 0) (map f ps))"
      using Cons.prems by simp
    with sub have "f p \<notin> set (filter (\<lambda>x. x \<noteq> 0) (map (\<lambda>p. if p = q then 0 else f p) ps))"
      by blast
    then show ?thesis using False Cons.IH [OF d] by simp
  qed
qed

lemma map_at_put_zero:
  "r < length g \<Longrightarrow> c < length (g ! r) \<Longrightarrow>
     map (at (put g r c 0)) ps = map (\<lambda>p. if p = (r, c) then 0 else at g p) ps"
  by (simp add: at_put)

lemma map_at_put_other:
  "r < length g \<Longrightarrow> c < length (g ! r) \<Longrightarrow> (r, c) \<notin> set ps \<Longrightarrow>
     map (at (put g r c v)) ps = map (at g) ps"
  by (auto simp: at_put)

lemma valid_after_zero:
  assumes "grid9 g" "r < 9" "c < 9" "r' < 9" "c' < 9" "valid_at g r' c'"
  shows "valid_at (put g r c 0) r' c'"
proof -
  have l: "r < length g" "c < length (g ! r)"
    using assms by (simp_all add: grid9_nth)
  show ?thesis
    using assms(6)
    unfolding valid_at_pos [OF assms(1,4,5)] valid_at_pos [OF grid9_put [OF assms(1)] assms(4,5)]
      map_at_put_zero [OF l]
    by (simp add: check_area_zero)
qed

lemma valid_after_put:
  assumes "grid9 g" "r < 9" "c < 9" "r' < 9" "c' < 9"
    and "valid_at g r' c'" "valid_at (put g r c v) r c"
  shows "valid_at (put g r c v) r' c'"
proof -
  have l: "r < length g" "c < length (g ! r)"
    using assms by (simp_all add: grid9_nth)
  note g' = grid9_put [OF assms(1), of r c v]
  note new = assms(7) [unfolded valid_at_pos [OF g' assms(2,3)]]
  note old = assms(6) [unfolded valid_at_pos [OF assms(1,4,5)]]
  have "check_area (map (at (put g r c v)) (row_pos r'))"
  proof (cases "(r, c) \<in> set (row_pos r')")
    case True
    then show ?thesis using new row_pos_mem [of r c r'] by simp
  next
    case False
    then show ?thesis using old by (simp only: map_at_put_other [OF l False])
  qed
  moreover have "check_area (map (at (put g r c v)) (col_pos c'))"
  proof (cases "(r, c) \<in> set (col_pos c')")
    case True
    then show ?thesis using new col_pos_mem [of r c c'] by simp
  next
    case False
    then show ?thesis using old by (simp only: map_at_put_other [OF l False])
  qed
  moreover have "check_area (map (at (put g r c v)) (box_pos r' c'))"
  proof (cases "(r, c) \<in> set (box_pos r' c')")
    case True
    then show ?thesis using new box_pos_mem [of r c r' c'] by simp
  next
    case False
    then show ?thesis using old by (simp only: map_at_put_other [OF l False])
  qed
  ultimately show ?thesis
    unfolding valid_at_pos [OF g' assms(4,5)] by simp
qed

lemma entry_put:
  assumes "grid9 g" "k < 81" "k' < 81"
  shows "entry (put g (k div 9) (k mod 9) v) k' = (if k' = k then v else entry g k')"
proof -
  have l: "k div 9 < length g" "k mod 9 < length (g ! (k div 9))"
    using assms by (simp_all add: grid9_nth)
  have "(k' div 9, k' mod 9) = (k div 9, k mod 9) \<longleftrightarrow> k' = k"
    by (metis div_mult_mod_eq prod.inject)
  then show ?thesis
    using at_put [OF l, of v "(k' div 9, k' mod 9)"] by (simp add: entry_def at_def)
qed

subsection \<open>What one iteration does to the cell under the cursor\<close>

lemma move_forward_result:
  "move_forward s = Inr s1 \<Longrightarrow>
     s1 = s\<lparr>backtrack_coord := backtrack_coord s1\<rparr> \<and>
     backtrack_coord s \<le> backtrack_coord s1 \<and>
     (\<forall>j. backtrack_coord s \<le> j \<and> j < backtrack_coord s1 \<longrightarrow>
          (\<exists>c. py_get (solve_puzzle s) j = Inr c \<and> solved c))"
proof (induction s rule: move_forward.induct)
  case (1 game)
  show ?case
  proof (cases "backtrack_coord game < int (length (solve_puzzle game)) - 1")
    case False
    then have "s1 = game"
      using "1.prems" by (subst (asm) move_forward.simps) simp
    then show ?thesis by auto
  next
    case True
    then obtain c where c: "py_get (solve_puzzle game) (backtrack_coord game) = Inr c"
      using "1.prems" by (subst (asm) move_forward.simps) (auto split: sum.splits)
    show ?thesis
    proof (cases "solved c")
      case False
      then have "s1 = game"
        using "1.prems" True c by (subst (asm) move_forward.simps) simp
      then show ?thesis by auto
    next
      case s: True
      let ?g = "game\<lparr>backtrack_coord := backtrack_coord game + 1\<rparr>"
      have m: "move_forward ?g = Inr s1"
        using "1.prems" True c s by (subst (asm) move_forward.simps) simp
      note ih = "1.IH" [OF True c s m]
      have "\<forall>j. backtrack_coord game \<le> j \<and> j < backtrack_coord s1 \<longrightarrow>
          (\<exists>c. py_get (solve_puzzle game) j = Inr c \<and> solved c)"
      proof (intro allI impI)
        fix j
        assume j: "backtrack_coord game \<le> j \<and> j < backtrack_coord s1"
        show "\<exists>c. py_get (solve_puzzle game) j = Inr c \<and> solved c"
        proof (cases "j = backtrack_coord game")
          case True
          then show ?thesis using c s by simp
        next
          case False
          then show ?thesis using ih j by simp
        qed
      qed
      moreover have "s1 = game\<lparr>backtrack_coord := backtrack_coord s1\<rparr>"
        using ih by (metis solver.update_convs(4) solver.surjective)
      ultimately show ?thesis using ih by simp
    qed
  qed
qed

lemma set_cell_open:
  assumes "grid9 (puzzle s)" "py_pos (length (solve_puzzle s)) (backtrack_coord s) = Inr k"
    and "row (solve_puzzle s ! k) < 9" "column (solve_puzzle s ! k) < 9"
    and "\<not> solved (solve_puzzle s ! k)" "set_cell s = Inr (k', s2)"
  shows "k' = k \<and> current_index (solve_puzzle s ! k) < length (possibilities (solve_puzzle s ! k)) \<and>
     s2 = place k (current_index (solve_puzzle s ! k)) s"
proof -
  let ?c = "solve_puzzle s ! k"
  have i: "current_index ?c < length (possibilities ?c)"
    using assms(2,5,6)
    by (auto simp: set_cell_def set_number_def py_get_def py_pos_def Let_def
        split: sum.splits if_splits)
  have "set_number ?c s = Inr (with_candidate ?c s (current_index ?c))"
    using set_number_open [OF assms(1,3,4,5) i] by simp
  then show ?thesis
    using assms(2,6) i by (auto simp: set_cell_def with_candidate_def place_def Let_def)
qed

lemma set_cell_solved:
  assumes "py_pos (length (solve_puzzle s)) (backtrack_coord s) = Inr k"
    and "solved (solve_puzzle s ! k)" "set_cell s = Inr (k', s2)"
  shows "k' = k \<and> s2 = s"
  using assms by (auto simp: set_cell_def set_number_def)

lemma increment_value_solved:
  assumes "grid9 (puzzle s)" "box_size s = 3" "row c < 9" "column c < 9"
    and "length (possibilities c) \<le> 1"
  shows "increment_value c s = Inr (c, s)"
  using assms by (subst increment_value.simps) (simp add: is_valid_grid9)

lemma place_cell:
  "k < length (solve_puzzle s) \<Longrightarrow>
     solve_puzzle (place k i s) ! k =
       (solve_puzzle s ! k)\<lparr>current_index := i, number := possibilities (solve_puzzle s ! k) ! i\<rparr>"
  by (simp add: place_def Let_def)

lemma place_same:
  "k < length (solve_puzzle s) \<Longrightarrow>
     (place k i s)\<lparr>solve_puzzle := (solve_puzzle (place k i s))[k := solve_puzzle (place k i s) ! k]\<rparr> =
       place k i s"
  by simp

lemma with_candidate_place:
  assumes "k < length (solve_puzzle s)"
  shows "(snd (with_candidate (solve_puzzle (place k i s) ! k) (place k i s) j))
       \<lparr>solve_puzzle :=
          (solve_puzzle (snd (with_candidate (solve_puzzle (place k i s) ! k) (place k i s) j)))
            [k := fst (with_candidate (solve_puzzle (place k i s) ! k) (place k i s) j)]\<rparr> =
     place k j s"
  using assms by (simp add: with_candidate_def place_def Let_def put_put)

lemma try_cell_open:
  assumes "grid9 (puzzle s)" "box_size s = 3"
    and "py_pos (length (solve_puzzle s)) (backtrack_coord s) = Inr k"
    and "row (solve_puzzle s ! k) < 9" "column (solve_puzzle s ! k) < 9"
    and "\<not> solved (solve_puzzle s ! k)" "set_cell s = Inr (k', s2)"
    and "increment_value (solve_puzzle s2 ! k') s2 = Inr (c3, s3)"
  shows "\<exists>j. k' = k \<and> current_index (solve_puzzle s ! k) \<le> j \<and>
     j < length (possibilities (solve_puzzle s ! k)) \<and>
     s3\<lparr>solve_puzzle := (solve_puzzle s3)[k := c3]\<rparr> = place k j s \<and>
     (valid_at (puzzle (place k j s)) (row (solve_puzzle s ! k)) (column (solve_puzzle s ! k)) \<or>
      j = length (possibilities (solve_puzzle s ! k)) - 1)"
proof -
  let ?c = "solve_puzzle s ! k"
  let ?i = "current_index ?c"
  have k: "k < length (solve_puzzle s)"
    using assms(3) by (auto simp: py_pos_def Let_def split: if_splits)
  from set_cell_open [OF assms(1,3,4,5,6,7)]
  have k': "k' = k" and i: "?i < length (possibilities ?c)" and s2: "s2 = place k ?i s"
    by simp_all
  let ?c2 = "solve_puzzle s2 ! k"
  have c2: "?c2 = ?c\<lparr>current_index := ?i, number := possibilities ?c ! ?i\<rparr>"
    using place_cell [OF k] s2 by simp
  have g2: "grid9 (puzzle s2)" "box_size s2 = 3"
    using assms(1,2) s2 by (simp_all add: place_def Let_def grid9_put)
  have h: "row ?c2 < 9" "column ?c2 < 9" "\<not> solved ?c2"
    "current_index ?c2 < length (possibilities ?c2)"
    using assms(4,5,6) i c2 by simp_all
  from increment_value_run [OF g2 h] assms(8) k'
  have r: "current_index ?c2 \<le> current_index c3"
    "current_index c3 < length (possibilities ?c2)"
    "is_valid c3 s3 = Inr True \<or> current_index c3 = length (possibilities ?c2) - 1"
    "current_index c3 = current_index ?c2 \<longrightarrow> c3 = ?c2 \<and> s3 = s2"
    "current_index c3 \<noteq> current_index ?c2 \<longrightarrow>
       (c3, s3) = with_candidate ?c2 s2 (current_index c3)"
    by auto
  let ?j = "current_index c3"
  have e: "s3\<lparr>solve_puzzle := (solve_puzzle s3)[k := c3]\<rparr> = place k ?j s \<and>
      row c3 = row ?c \<and> column c3 = column ?c"
  proof (cases "?j = current_index ?c2")
    case True
    then have t: "c3 = ?c2" "s3 = s2" "?j = ?i"
      using r(4) c2 by simp_all
    then have "s3\<lparr>solve_puzzle := (solve_puzzle s3)[k := c3]\<rparr> = s2"
      by simp
    moreover have "row c3 = row ?c" "column c3 = column ?c"
      using t(1) c2 by simp_all
    ultimately show ?thesis
      using s2 t(3) by simp
  next
    case False
    then have w: "c3 = fst (with_candidate ?c2 s2 ?j)" "s3 = snd (with_candidate ?c2 s2 ?j)"
      using r(5) by (simp_all add: prod_eq_iff)
    have "row c3 = row ?c2" "column c3 = column ?c2"
      using w(1) by (metis with_candidate_fields(3), metis with_candidate_fields(4))
    moreover have "row ?c2 = row ?c" "column ?c2 = column ?c"
      by (simp_all add: c2)
    ultimately have "row c3 = row ?c" "column c3 = column ?c"
      by simp_all
    then show ?thesis
      using with_candidate_place [OF k, of ?i ?j] s2 w by simp
  qed
  then have "puzzle (s3\<lparr>solve_puzzle := (solve_puzzle s3)[k := c3]\<rparr>) = puzzle (place k ?j s)"
    and "box_size (s3\<lparr>solve_puzzle := (solve_puzzle s3)[k := c3]\<rparr>) = box_size (place k ?j s)"
    by (simp_all only:)
  then have p: "puzzle s3 = puzzle (place k ?j s)" and b: "box_size s3 = box_size (place k ?j s)"
    by simp_all
  have "grid9 (puzzle (place k ?j s))" "box_size s3 = 3"
    using assms(1,2) b by (simp_all add: place_def Let_def grid9_put)
  then have "is_valid c3 s3 = Inr (valid_at (puzzle (place k ?j s)) (row ?c) (column ?c))"
    using is_valid_grid9 [of s3 c3] p e assms(4,5) by simp
  then show ?thesis
    using k' r(1,2,3) c2 e by (intro exI [of _ ?j]) auto
qed

subsection \<open>The invariant of the search\<close>

lemma input_entry:
  assumes "input_grid g" "k < 81"
  shows "0 \<le> entry g k"
proof -
  have "k div 9 < length g" "k mod 9 < length (g ! (k div 9))"
    using assms by (simp_all add: input_grid_def grid9_nth)
  then have "g ! (k div 9) \<in> set g" "g ! (k div 9) ! (k mod 9) \<in> set (g ! (k div 9))"
    by simp_all
  then show ?thesis
    using assms(1) by (auto simp: input_grid_def entry_def)
qed

lemma candidates_nonzero: "0 \<notin> set (candidates g r c)"
  by (simp add: candidates_def)

lemma built_cell_fixed:
  "0 < entry g k \<Longrightarrow>
     solved (built_cell g (k div 9) (k mod 9)) \<and>
     possibilities (built_cell g (k div 9) (k mod 9)) = [] \<and>
     number (built_cell g (k div 9) (k mod 9)) = entry g k"
  by (simp add: built_cell_def entry_def)

lemma built_cell_open:
  "input_grid g \<Longrightarrow> k < 81 \<Longrightarrow> possibilities (built_cell g (k div 9) (k mod 9)) \<noteq> [] \<or>
     \<not> solved (built_cell g (k div 9) (k mod 9)) \<Longrightarrow> entry g k = 0"
  using input_entry [of g k] by (auto simp: built_cell_def entry_def split: if_splits)

lemma built_cell_solved_short:
  "solved (built_cell g r c) \<Longrightarrow> length (possibilities (built_cell g r c)) \<le> 1"
  by (simp add: built_cell_def split: if_splits)

lemma built_cell_nonzero: "0 \<notin> set (possibilities (built_cell g r c))"
  by (simp add: built_cell_def candidates_nonzero)

lemma built_cell_fields:
  "row (built_cell g r c) = r" "column (built_cell g r c) = c"
  "current_index (built_cell g r c) = 0" "number (built_cell g r c) = g ! r ! c"
  by (simp_all add: built_cell_def)

lemma start_board_ok:
  assumes "input_grid g"
  shows "board_ok g (start_board g) \<and> passed_ok (start_board g) \<and>
     backtrack_coord (start_board g) = 0"
proof -
  have g: "grid9 g"
    using assms by (simp add: input_grid_def)
  have "cell_ok g g k (board_cells g ! k)" if "k < 81" for k
    using that built_cell_open [OF assms that]
    by (auto simp: cell_ok_def board_cells_nth built_cell_fields entry_def)
  then show ?thesis
    using g new_solver_grid9 [OF g]
    by (simp add: board_ok_def passed_ok_def start_board_def board_cells_length new_solver_def)
qed

text \<open>Changing the cursor alone.\<close>

lemma board_ok_cursor: "board_ok g0 (s\<lparr>backtrack_coord := p\<rparr>) = board_ok g0 s"
  by (simp add: board_ok_def)

text \<open>Writing a candidate into an open cell.\<close>

lemma cell_ok_other_put:
  assumes "grid9 pz" "k < 81" "k' < 81" "k' \<noteq> k"
    and "cell_ok g0 pz k' c"
    and "valid_at (put pz (k div 9) (k mod 9) v) (k div 9) (k mod 9) \<or> v = 0"
  shows "cell_ok g0 (put pz (k div 9) (k mod 9) v) k' c"
proof -
  have e: "entry (put pz (k div 9) (k mod 9) v) k' = entry pz k'"
    using entry_put [OF assms(1,2,3)] assms(4) by simp
  have b: "k div 9 < 9" "k mod 9 < 9" "k' div 9 < 9" "k' mod 9 < 9"
    using assms(2,3) by simp_all
  have "valid_at (put pz (k div 9) (k mod 9) v) (k' div 9) (k' mod 9)"
    if "valid_at pz (k' div 9) (k' mod 9)"
    using assms(6) valid_after_put [OF assms(1) b that] valid_after_zero [OF assms(1) b that]
    by auto
  then show ?thesis
    using assms(5) e by (auto simp: cell_ok_def)
qed

lemma place_fields:
  "puzzle (place k j s) =
     put (puzzle s) (row (solve_puzzle s ! k)) (column (solve_puzzle s ! k))
       (possibilities (solve_puzzle s ! k) ! j)"
  "box_size (place k j s) = box_size s"
  "backtrack_coord (place k j s) = backtrack_coord s"
  "length (solve_puzzle (place k j s)) = length (solve_puzzle s)"
  "k' \<noteq> k \<Longrightarrow> solve_puzzle (place k j s) ! k' = solve_puzzle s ! k'"
  by (simp_all add: place_def Let_def)

lemma board_ok_place:
  assumes "board_ok g0 s" "k < 81" "\<not> solved (solve_puzzle s ! k)"
    and "j < length (possibilities (solve_puzzle s ! k))"
    and "valid_at (puzzle (place k j s)) (k div 9) (k mod 9)"
  shows "board_ok g0 (place k j s)"
proof -
  let ?c = "solve_puzzle s ! k"
  let ?v = "possibilities ?c ! j"
  have b: "box_size s = 3" "grid9 (puzzle s)" "length (solve_puzzle s) = 81"
    and c: "\<And>i. i < 81 \<Longrightarrow> cell_ok g0 (puzzle s) i (solve_puzzle s ! i)"
    using assms(1) by (simp_all add: board_ok_def)
  have rc: "row ?c = k div 9" "column ?c = k mod 9"
    using c [OF assms(2)] by (simp_all add: cell_ok_def)
  have pz: "puzzle (place k j s) = put (puzzle s) (k div 9) (k mod 9) ?v"
    using rc by (simp add: place_fields)
  have "cell_ok g0 (puzzle (place k j s)) i (solve_puzzle (place k j s) ! i)" if i: "i < 81" for i
  proof (cases "i = k")
    case True
    note ck = c [OF assms(2), unfolded cell_ok_def]
    have cl: "solve_puzzle (place k j s) ! k = ?c\<lparr>current_index := j, number := ?v\<rparr>"
      using place_cell [of k s j] assms(2) b(3) by simp
    have nf: "\<not> 0 < entry g0 k"
      using built_cell_fixed [of g0 k] ck assms(3) by auto
    show ?thesis
      unfolding True cl cell_ok_def
      using ck assms(3,4,5) nf by simp
  next
    case False
    have "valid_at (put (puzzle s) (k div 9) (k mod 9) ?v) (k div 9) (k mod 9)"
      using assms(5) by (simp only: pz)
    then show ?thesis
      using cell_ok_other_put [OF b(2) assms(2) i False c [OF i], of ?v] False
      by (simp add: pz place_fields(2-5))
  qed
  then show ?thesis
    using b by (simp add: board_ok_def place_fields(2-5) pz grid9_put)
qed

lemma reset_cell_result:
  assumes "grid9 (puzzle s)" "k < length (solve_puzzle s)"
    and "row (solve_puzzle s ! k) < 9" "column (solve_puzzle s ! k) < 9"
  shows "reset_cell k s =
     Inr (s\<lparr>solve_puzzle := (solve_puzzle s)[k := (solve_puzzle s ! k)\<lparr>current_index := 0, number := 0\<rparr>],
            puzzle := put (puzzle s) (row (solve_puzzle s ! k)) (column (solve_puzzle s ! k)) 0\<rparr>)"
  using assms by (simp add: reset_cell_def Let_def grid_store_grid9)

lemma grid_store_put: "grid_store (put g r c v) r c w = grid_store g r c w"
  by (auto simp: grid_store_def put_def)

lemma reset_place:
  assumes "k < length (solve_puzzle s)"
  shows "reset_cell k (place k j s) = reset_cell k s"
  using assms
  by (simp add: reset_cell_def place_def Let_def grid_store_put split: sum.splits)

lemma board_ok_reset:
  assumes "input_grid g0" "board_ok g0 s" "k < 81" "possibilities (solve_puzzle s ! k) \<noteq> []"
  shows "\<exists>s'. reset_cell k s = Inr s' \<and> board_ok g0 s' \<and>
     backtrack_coord s' = backtrack_coord s \<and>
     (\<forall>i<81. i \<noteq> k \<longrightarrow> solve_puzzle s' ! i = solve_puzzle s ! i \<and>
        entry (puzzle s') i = entry (puzzle s) i)"
proof -
  let ?c = "solve_puzzle s ! k"
  let ?s' = "s\<lparr>solve_puzzle := (solve_puzzle s)[k := ?c\<lparr>current_index := 0, number := 0\<rparr>],
            puzzle := put (puzzle s) (row ?c) (column ?c) 0\<rparr>"
  have b: "box_size s = 3" "grid9 (puzzle s)" "length (solve_puzzle s) = 81"
    and c: "\<And>i. i < 81 \<Longrightarrow> cell_ok g0 (puzzle s) i (solve_puzzle s ! i)"
    using assms(2) by (simp_all add: board_ok_def)
  have rc: "row ?c = k div 9" "column ?c = k mod 9"
    and p: "possibilities ?c = possibilities (built_cell g0 (k div 9) (k mod 9))"
    using c [OF assms(3)] by (simp_all add: cell_ok_def)
  have e0: "entry g0 k = 0"
    using built_cell_open [OF assms(1,3)] assms(4) p by simp
  have r: "reset_cell k s = Inr ?s'"
    using reset_cell_result [of s k] b assms(3) rc by simp
  have e: "\<And>i. i < 81 \<Longrightarrow> entry (puzzle ?s') i = (if i = k then 0 else entry (puzzle s) i)"
    using entry_put [OF b(2) assms(3)] rc by simp
  have "cell_ok g0 (puzzle ?s') i (solve_puzzle ?s' ! i)" if i: "i < 81" for i
  proof (cases "i = k")
    case True
    note ck = c [OF assms(3), unfolded cell_ok_def]
    have cl: "solve_puzzle ?s' ! k = ?c\<lparr>current_index := 0, number := 0\<rparr>"
      using assms(3) b(3) by simp
    show ?thesis
      unfolding True cl cell_ok_def
      using ck assms(4) e [OF assms(3)] e0 by simp
  next
    case False
    then show ?thesis
      using cell_ok_other_put [OF b(2) assms(3) i False c [OF i], of 0] rc
      by simp
  qed
  then have "board_ok g0 ?s'"
    using b rc by (simp add: board_ok_def grid9_put)
  then show ?thesis
    using r e by (intro exI [of _ ?s']) simp
qed

lemma passed_ok_transfer:
  assumes "passed_ok s" "backtrack_coord s' \<le> backtrack_coord s"
    and "\<forall>i<81. int i < backtrack_coord s' \<longrightarrow>
           solve_puzzle s' ! i = solve_puzzle s ! i \<and> entry (puzzle s') i = entry (puzzle s) i"
  shows "passed_ok s'"
  using assms unfolding passed_ok_def by (metis less_le_trans)

subsection \<open>One iteration keeps the invariant\<close>

lemma py_pos_cursor:
  "py_pos n p = Inr k \<Longrightarrow> k < n \<and> (0 \<le> p \<longrightarrow> int k = p) \<and> (p < 0 \<longrightarrow> int k = p + int n)"
  by (auto simp: py_pos_def Let_def split: if_splits)

lemma decrement_cell_ok:
  assumes "input_grid g0"
  shows "board_ok g0 s \<Longrightarrow> py_pos 81 (backtrack_coord s) = Inr k \<Longrightarrow>
     decrement_cell k s = Inr s' \<Longrightarrow>
     board_ok g0 s' \<and> backtrack_coord s' \<le> backtrack_coord s \<and>
     (\<forall>i<81. int i < backtrack_coord s' \<longrightarrow>
        solve_puzzle s' ! i = solve_puzzle s ! i \<and> entry (puzzle s') i = entry (puzzle s) i)"
proof (induction k s rule: decrement_cell.induct)
  case (1 k game)
  let ?c = "solve_puzzle game ! k"
  note pk = py_pos_cursor [OF "1.prems"(2)]
  have b: "box_size game = 3" "grid9 (puzzle game)" "length (solve_puzzle game) = 81"
    and c: "\<And>i. i < 81 \<Longrightarrow> cell_ok g0 (puzzle game) i (solve_puzzle game ! i)"
    using "1.prems"(1) by (simp_all add: board_ok_def)
  have k: "k < 81"
    using pk by simp
  have before: "i \<noteq> k \<and> k \<noteq> i" if "int i < backtrack_coord game" for i
    using that pk by auto
  show ?case
  proof (cases "int (current_index ?c) = int (length (possibilities ?c)) - 1")
    case False
    let ?s' = "game\<lparr>solve_puzzle := (solve_puzzle game)[k := ?c\<lparr>current_index := current_index ?c + 1\<rparr>]\<rparr>"
    have s': "s' = ?s'"
      using "1.prems"(3) False by (subst (asm) decrement_cell.simps) (simp add: Let_def)
    have cl: "solve_puzzle ?s' ! k = ?c\<lparr>current_index := current_index ?c + 1\<rparr>"
      using k b(3) by simp
    have "cell_ok g0 (puzzle ?s') i (solve_puzzle ?s' ! i)" if i: "i < 81" for i
    proof (cases "i = k")
      case True
      note ck = c [OF k, unfolded cell_ok_def]
      show ?thesis
        unfolding True cl cell_ok_def using ck False by auto
    next
      case False
      then show ?thesis using c [OF i] by simp
    qed
    then have "board_ok g0 ?s'"
      using b by (simp add: board_ok_def)
    moreover have "\<forall>i<81. int i < backtrack_coord ?s' \<longrightarrow>
        solve_puzzle ?s' ! i = solve_puzzle game ! i \<and> entry (puzzle ?s') i = entry (puzzle game) i"
    proof (intro allI impI)
      fix i
      assume "i < 81" "int i < backtrack_coord ?s'"
      then have "k \<noteq> i"
        using before [of i] by simp
      then show "solve_puzzle ?s' ! i = solve_puzzle game ! i \<and>
          entry (puzzle ?s') i = entry (puzzle game) i"
        by simp
    qed
    ultimately show ?thesis
      unfolding s' by simp
  next
    case True
    then have ne: "possibilities ?c \<noteq> []"
      by auto
    from board_ok_reset [OF assms "1.prems"(1) k ne]
    obtain s1 where s1: "reset_cell k game = Inr s1" "board_ok g0 s1"
      "backtrack_coord s1 = backtrack_coord game"
      "\<forall>i<81. i \<noteq> k \<longrightarrow> solve_puzzle s1 ! i = solve_puzzle game ! i \<and>
        entry (puzzle s1) i = entry (puzzle game) i"
      by blast
    obtain s2 where s2: "backtrack s1 = Inr s2"
      using "1.prems"(3) True s1(1)
      by (subst (asm) decrement_cell.simps) (auto simp: Let_def split: sum.splits)
    obtain k2 where k2: "py_pos (length (solve_puzzle s2)) (backtrack_coord s2) = Inr k2"
      using "1.prems"(3) True s1(1) s2
      by (subst (asm) decrement_cell.simps) (auto simp: Let_def split: sum.splits)
    have d: "decrement_cell k2 s2 = Inr s'"
      using "1.prems"(3) True s1(1) s2 k2
      by (subst (asm) decrement_cell.simps) (simp add: Let_def)
    note bb = backtrack_bounds [OF s2]
    have bs2: "board_ok g0 s2"
      using bb s1(2) board_ok_cursor [where s = s1 and p = "backtrack_coord s2" and ?g0.0 = g0]
      by simp
    have l2: "length (solve_puzzle s2) = 81"
      using bs2 by (simp add: board_ok_def)
    have same2: "solve_puzzle s2 = solve_puzzle s1" "puzzle s2 = puzzle s1"
      by (subst conjunct2 [OF conjunct2 [OF bb]], simp)+
    note ih = "1.IH" [OF refl True s1(1) s2 k2 bs2 k2 [unfolded l2] d]
    have "\<forall>i<81. int i < backtrack_coord s' \<longrightarrow>
        solve_puzzle s' ! i = solve_puzzle game ! i \<and> entry (puzzle s') i = entry (puzzle game) i"
    proof (intro allI impI)
      fix i
      assume i: "i < 81" "int i < backtrack_coord s'"
      then have "int i < backtrack_coord game"
        using ih bb s1(3) by simp
      then have "i \<noteq> k"
        using before [of i] by simp
      then show "solve_puzzle s' ! i = solve_puzzle game ! i \<and>
          entry (puzzle s') i = entry (puzzle game) i"
        using ih i s1(4) same2 by simp
    qed
    then show ?thesis
      using ih bb s1(3) by simp
  qed
qed

lemma change_cells_forward:
  assumes "grid9 (puzzle s)" "box_size s = 3" "row (solve_puzzle s ! k) < 9"
    "column (solve_puzzle s ! k) < 9"
  shows "change_cells k s =
     (if valid_at (puzzle s) (row (solve_puzzle s ! k)) (column (solve_puzzle s ! k))
      then Inr (s\<lparr>backtrack_coord := backtrack_coord s + 1\<rparr>) else decrement_cell k s)"
  by (simp add: change_cells_def is_valid_grid9 [OF assms])

lemma solver_solve_ok:
  assumes "input_grid g0" "board_ok g0 s" "passed_ok s" "solver_solve s = Inr s'"
  shows "board_ok g0 s' \<and> passed_ok s' \<and>
     (\<exists>p k. backtrack_coord s \<le> p \<and> py_pos 81 p = Inr k \<and>
        (\<forall>j. backtrack_coord s \<le> j \<and> j < p \<longrightarrow>
             (\<exists>c. py_get (solve_puzzle s) j = Inr c \<and> solved c)) \<and>
        (backtrack_coord s' \<le> p \<or>
         backtrack_coord s' = p + 1 \<and> valid_at (puzzle s') (k div 9) (k mod 9)))"
proof -
  obtain s1 where m: "move_forward s = Inr s1"
    using assms(4) by (auto simp: solver_solve_def split: sum.splits)
  obtain k' s2 where sc: "set_cell s1 = Inr (k', s2)"
    using assms(4) m by (auto simp: solver_solve_def split: sum.splits)
  obtain c3 s3 where iv: "increment_value (solve_puzzle s2 ! k') s2 = Inr (c3, s3)"
    using assms(4) m sc by (auto simp: solver_solve_def split: sum.splits)
  let ?t = "s3\<lparr>solve_puzzle := (solve_puzzle s3)[k' := c3]\<rparr>"
  have cc: "change_cells k' ?t = Inr s'"
    using assms(4) m sc iv by (simp add: solver_solve_def)
  note mf = move_forward_result [OF m]
  let ?p = "backtrack_coord s1"
  have s1: "s1 = s\<lparr>backtrack_coord := ?p\<rparr>"
    using mf by simp
  have same1: "solve_puzzle s1 = solve_puzzle s" "puzzle s1 = puzzle s"
    by (subst s1, simp)+
  have b1: "board_ok g0 s1"
    using assms(2) board_ok_cursor [where s = s and p = ?p and ?g0.0 = g0] s1 by simp
  have b: "box_size s1 = 3" "grid9 (puzzle s1)" "length (solve_puzzle s1) = 81"
    and c: "\<And>i. i < 81 \<Longrightarrow> cell_ok g0 (puzzle s1) i (solve_puzzle s1 ! i)"
    using b1 by (simp_all add: board_ok_def)
  have p1: "passed_ok s1"
    unfolding passed_ok_def
  proof (intro allI impI)
    fix i
    assume i: "i < 81" "int i < backtrack_coord s1 \<and> \<not> solved (solve_puzzle s1 ! i)"
    have "int i < backtrack_coord s"
    proof (rule ccontr)
      assume "\<not> int i < backtrack_coord s"
      then obtain c where "py_get (solve_puzzle s) (int i) = Inr c" "solved c"
        using mf i(2) by (metis not_less)
      then show False
        using i b(3) same1 by (simp add: py_get_nat)
    qed
    then show "entry (puzzle s1) i \<noteq> 0 \<and> number (solve_puzzle s1 ! i) = entry (puzzle s1) i"
      using assms(3) i same1 by (simp add: passed_ok_def)
  qed
  obtain k where pp: "py_pos (length (solve_puzzle s1)) ?p = Inr k"
    using sc by (auto simp: set_cell_def split: sum.splits)
  note pk = py_pos_cursor [OF pp [unfolded b(3)]]
  have k: "k < 81"
    using pk by simp
  note ck = c [OF k, unfolded cell_ok_def]
  have rc: "row (solve_puzzle s1 ! k) = k div 9" "column (solve_puzzle s1 ! k) = k mod 9"
    "row (solve_puzzle s1 ! k) < 9" "column (solve_puzzle s1 ! k) < 9"
    using ck k by simp_all
  have before: "i \<noteq> k \<and> k \<noteq> i" if "int i < ?p" for i
    using that pk by auto
  have third: "\<exists>p k. backtrack_coord s \<le> p \<and> py_pos 81 p = Inr k \<and>
        (\<forall>j. backtrack_coord s \<le> j \<and> j < p \<longrightarrow>
             (\<exists>c. py_get (solve_puzzle s) j = Inr c \<and> solved c)) \<and>
        (backtrack_coord s' \<le> p \<or>
         backtrack_coord s' = p + 1 \<and> valid_at (puzzle s') (k div 9) (k mod 9))"
    if "backtrack_coord s' \<le> ?p \<or>
         backtrack_coord s' = ?p + 1 \<and> valid_at (puzzle s') (k div 9) (k mod 9)"
    using that mf pp [unfolded b(3)] by (intro exI [of _ ?p] exI [of _ k]) simp
  show ?thesis
  proof (cases "solved (solve_puzzle s1 ! k)")
    case True
    have k': "k' = k" and s2: "s2 = s1"
      using set_cell_solved [OF pp True sc] by simp_all
    have "length (possibilities (solve_puzzle s1 ! k)) \<le> 1"
      using ck True built_cell_solved_short [of g0 "k div 9" "k mod 9"] by simp
    then have "increment_value (solve_puzzle s1 ! k) s1 = Inr (solve_puzzle s1 ! k, s1)"
      using increment_value_solved [OF b(2,1) rc(3,4)] by simp
    with iv [unfolded k' s2] have "c3 = solve_puzzle s1 ! k" "s3 = s1"
      by auto
    then have t: "?t = s1"
      using k' by simp
    show ?thesis
    proof (cases "valid_at (puzzle s1) (k div 9) (k mod 9)")
      case v: True
      then have s': "s' = s1\<lparr>backtrack_coord := ?p + 1\<rparr>"
        using cc t k' change_cells_forward [OF b(2,1) rc(3,4)] rc by simp
      have "passed_ok (s1\<lparr>backtrack_coord := ?p + 1\<rparr>)"
        unfolding passed_ok_def
      proof (intro allI impI)
        fix i
        assume i: "i < 81" "int i < backtrack_coord (s1\<lparr>backtrack_coord := ?p + 1\<rparr>) \<and>
            \<not> solved (solve_puzzle (s1\<lparr>backtrack_coord := ?p + 1\<rparr>) ! i)"
        then have "i \<noteq> k"
          using True by auto
        then have "int i < ?p"
          using i pk by auto
        then show "entry (puzzle (s1\<lparr>backtrack_coord := ?p + 1\<rparr>)) i \<noteq> 0 \<and>
            number (solve_puzzle (s1\<lparr>backtrack_coord := ?p + 1\<rparr>) ! i) =
              entry (puzzle (s1\<lparr>backtrack_coord := ?p + 1\<rparr>)) i"
          using p1 i by (simp add: passed_ok_def)
      qed
      then have "board_ok g0 s' \<and> passed_ok s'"
        using b1 s' board_ok_cursor [where s = s1 and p = "?p + 1" and ?g0.0 = g0] by simp
      moreover have "backtrack_coord s' = ?p + 1 \<and> valid_at (puzzle s') (k div 9) (k mod 9)"
        using v s' by simp
      ultimately show ?thesis
        using third by simp
    next
      case False
      then have d: "decrement_cell k s1 = Inr s'"
        using cc t k' change_cells_forward [OF b(2,1) rc(3,4)] rc by simp
      note fin = decrement_cell_ok [OF assms(1) b1 pp [unfolded b(3)] d]
      then have "board_ok g0 s' \<and> passed_ok s'"
        using passed_ok_transfer [OF p1, of s'] by simp
      then show ?thesis
        using third fin by simp
    qed
  next
    case False
    from try_cell_open [OF b(2,1) pp rc(3,4) False sc iv]
    obtain j where j: "k' = k" "j < length (possibilities (solve_puzzle s1 ! k))"
      "?t = place k j s1"
      "valid_at (puzzle (place k j s1)) (k div 9) (k mod 9) \<or>
        j = length (possibilities (solve_puzzle s1 ! k)) - 1"
      using rc by auto
    let ?v = "possibilities (solve_puzzle s1 ! k) ! j"
    have cl: "solve_puzzle (place k j s1) ! k = (solve_puzzle s1 ! k)\<lparr>current_index := j, number := ?v\<rparr>"
      using place_cell [of k s1 j] k b(3) by simp
    have pz: "puzzle (place k j s1) = put (puzzle s1) (k div 9) (k mod 9) ?v"
      using rc by (simp add: place_fields)
    have g': "grid9 (puzzle (place k j s1))" "box_size (place k j s1) = 3"
      "row (solve_puzzle (place k j s1) ! k) < 9" "column (solve_puzzle (place k j s1) ! k) < 9"
      using b rc by (simp_all add: pz grid9_put place_fields(2) cl)
    have cf: "change_cells k (place k j s1) =
       (if valid_at (puzzle (place k j s1)) (k div 9) (k mod 9)
        then Inr ((place k j s1)\<lparr>backtrack_coord := ?p + 1\<rparr>)
        else decrement_cell k (place k j s1))"
      using change_cells_forward [OF g'] rc by (simp add: cl place_fields(3))
    show ?thesis
    proof (cases "valid_at (puzzle (place k j s1)) (k div 9) (k mod 9)")
      case True
      let ?s' = "(place k j s1)\<lparr>backtrack_coord := ?p + 1\<rparr>"
      have s': "s' = ?s'"
        using cc j(1,3) cf True by simp
      have pb: "possibilities (solve_puzzle s1 ! k) =
          possibilities (built_cell g0 (k div 9) (k mod 9))"
        using ck by simp
      have "?v \<in> set (possibilities (solve_puzzle s1 ! k))"
        using j(2) by simp
      then have vn: "?v \<noteq> 0"
        unfolding pb using built_cell_nonzero [of g0 "k div 9" "k mod 9"] by metis
      have "passed_ok ?s'"
        unfolding passed_ok_def
      proof (intro allI impI)
        fix i
        assume i: "i < 81" "int i < backtrack_coord ?s' \<and> \<not> solved (solve_puzzle ?s' ! i)"
        show "entry (puzzle ?s') i \<noteq> 0 \<and> number (solve_puzzle ?s' ! i) = entry (puzzle ?s') i"
        proof (cases "i = k")
          case True
          then show ?thesis
            using entry_put [OF b(2) k k, of ?v] vn by (simp add: pz cl)
        next
          case ne: False
          then have "int i < ?p"
            using i pk by (auto simp: place_fields(3))
          moreover have "solve_puzzle ?s' ! i = solve_puzzle s1 ! i"
            using ne by (simp add: place_fields(5))
          moreover have "entry (puzzle ?s') i = entry (puzzle s1) i"
            using entry_put [OF b(2) k i(1), of ?v] ne by (simp add: pz)
          ultimately show ?thesis
            using p1 i by (simp add: passed_ok_def)
        qed
      qed
      moreover have "board_ok g0 ?s'"
        using board_ok_place [OF b1 k False j(2) True]
          board_ok_cursor [where s = "place k j s1" and p = "?p + 1" and ?g0.0 = g0] by simp
      ultimately have "board_ok g0 s' \<and> passed_ok s'"
        unfolding s' by simp
      moreover have "backtrack_coord s' = ?p + 1 \<and> valid_at (puzzle s') (k div 9) (k mod 9)"
        using True s' by (simp add: place_fields(3))
      ultimately show ?thesis
        using third by simp
    next
      case inv: False
      then have last: "int j = int (length (possibilities (solve_puzzle s1 ! k))) - 1"
        using j(2,4) by auto
      have d: "decrement_cell k (place k j s1) = Inr s'"
        using cc j(1,3) cf inv by simp
      have ne: "possibilities (solve_puzzle s1 ! k) \<noteq> []"
        using j(2) by auto
      from board_ok_reset [OF assms(1) b1 k ne]
      obtain s4 where s4: "reset_cell k s1 = Inr s4" "board_ok g0 s4"
        "backtrack_coord s4 = backtrack_coord s1"
        "\<forall>i<81. i \<noteq> k \<longrightarrow> solve_puzzle s4 ! i = solve_puzzle s1 ! i \<and>
          entry (puzzle s4) i = entry (puzzle s1) i"
        by blast
      have r4: "reset_cell k (place k j s1) = Inr s4"
        using reset_place [of k s1 j] k b(3) s4(1) by simp
      have lc: "int (current_index (solve_puzzle (place k j s1) ! k)) =
          int (length (possibilities (solve_puzzle (place k j s1) ! k))) - 1"
        using last by (simp add: cl)
      obtain s5 where s5: "backtrack s4 = Inr s5"
        using d lc r4
        by (subst (asm) decrement_cell.simps) (auto simp: Let_def split: sum.splits)
      obtain k5 where k5: "py_pos (length (solve_puzzle s5)) (backtrack_coord s5) = Inr k5"
        using d lc r4 s5
        by (subst (asm) decrement_cell.simps) (auto simp: Let_def split: sum.splits)
      have d5: "decrement_cell k5 s5 = Inr s'"
        using d lc r4 s5 k5
        by (subst (asm) decrement_cell.simps) (simp add: Let_def)
      note bb = backtrack_bounds [OF s5]
      have bs5: "board_ok g0 s5"
        using bb s4(2) board_ok_cursor [where s = s4 and p = "backtrack_coord s5" and ?g0.0 = g0]
        by simp
      have l5: "length (solve_puzzle s5) = 81"
        using bs5 by (simp add: board_ok_def)
      have same5: "solve_puzzle s5 = solve_puzzle s4" "puzzle s5 = puzzle s4"
        by (subst conjunct2 [OF conjunct2 [OF bb]], simp)+
      note fin = decrement_cell_ok [OF assms(1) bs5 k5 [unfolded l5] d5]
      have "\<forall>i<81. int i < backtrack_coord s' \<longrightarrow>
          solve_puzzle s' ! i = solve_puzzle s1 ! i \<and> entry (puzzle s') i = entry (puzzle s1) i"
      proof (intro allI impI)
        fix i
        assume i: "i < 81" "int i < backtrack_coord s'"
        then have "int i < ?p"
          using fin bb s4(3) by simp
        then have "i \<noteq> k"
          using before [of i] by simp
        then show "solve_puzzle s' ! i = solve_puzzle s1 ! i \<and>
            entry (puzzle s') i = entry (puzzle s1) i"
          using fin i s4(4) same5 by simp
      qed
      moreover have le: "backtrack_coord s' \<le> backtrack_coord s1"
        using fin bb s4(3) by simp
      ultimately have "board_ok g0 s' \<and> passed_ok s'"
        using fin passed_ok_transfer [OF p1, of s'] by simp
      then show ?thesis
        using third le by simp
    qed
  qed
qed

subsection \<open>The states of the main loop\<close>

lemma reaches_first:
  assumes "backtrack_coord s \<le> int (length (solve_puzzle s)) - 1" "solver_solve s = Inr s'"
    and "reaches s' t"
  shows "reaches s t"
  using assms(3)
proof (induction rule: reaches.induct)
  case start
  show ?case
    using reaches.step [OF reaches.start assms(1,2)] .
next
  case (step t u)
  show ?case
    using reaches.step [OF step.IH step.hyps(2,3)] .
qed

lemma run_solve_reaches:
  "run_solve n s = Some (Inr t) \<Longrightarrow>
     reaches s t \<and> \<not> backtrack_coord t \<le> int (length (solve_puzzle t)) - 1"
proof (induction n arbitrary: s)
  case 0
  then show ?case
    by (auto split: if_splits intro: reaches.start)
next
  case (Suc n)
  show ?case
  proof (cases "backtrack_coord s \<le> int (length (solve_puzzle s)) - 1")
    case False
    then show ?thesis
      using Suc.prems by (auto intro: reaches.start)
  next
    case True
    then obtain s' where s': "solver_solve s = Inr s'" "run_solve n s' = Some (Inr t)"
      using Suc.prems by (auto split: sum.splits)
    from Suc.IH [OF s'(2)] reaches_first [OF True s'(1)]
    show ?thesis by simp
  qed
qed

lemma reaches_ok:
  assumes "input_grid g0" "board_ok g0 s" "passed_ok s" "reaches s t"
  shows "board_ok g0 t \<and> passed_ok t"
  using assms(4)
proof (induction rule: reaches.induct)
  case start
  show ?case using assms(2,3) by simp
next
  case (step t u)
  then show ?case
    using solver_solve_ok [OF assms(1), of t u] by simp
qed

lemma initialize_board_start:
  "input_grid g \<Longrightarrow> initialize_board (new_solver g) = Inr (start_board g)"
  using initialize_board_built [of g] by (simp add: input_grid_def start_board_def)

lemma reached_ok:
  assumes "input_grid g" "initialize_board (new_solver g) = Inr s0" "reaches s0 s"
  shows "board_ok g s \<and> passed_ok s"
proof -
  have "s0 = start_board g"
    using initialize_board_start [OF assms(1)] assms(2) by simp
  then show ?thesis
    using reaches_ok [OF assms(1) _ _ assms(3)] start_board_ok [OF assms(1)] by simp
qed

lemma entry_at: "r < 9 \<Longrightarrow> c < 9 \<Longrightarrow> entry g (9 * r + c) = g ! r ! c"
  by (simp add: entry_def)

lemma board_ok_flags:
  assumes "board_ok g s" "board_ok g s'" "k < 81"
  shows "solved (solve_puzzle s' ! k) = solved (solve_puzzle s ! k)"
  using assms by (simp add: board_ok_def cell_ok_def)

lemma board_ok_is_valid:
  assumes "board_ok g s" "k < 81"
  shows "is_valid (solve_puzzle s ! k) s = Inr (valid_at (puzzle s) (k div 9) (k mod 9))"
proof -
  have "cell_ok g (puzzle s) k (solve_puzzle s ! k)" "grid9 (puzzle s)" "box_size s = 3"
    using assms by (simp_all add: board_ok_def)
  then show ?thesis
    using is_valid_grid9 [of s "solve_puzzle s ! k"] assms(2) by (simp add: cell_ok_def)
qed

subsection \<open>A grid that is already solved\<close>

lemma solved_grid_input: "solved_grid g \<Longrightarrow> input_grid g"
  by (fastforce simp: solved_grid_def input_grid_def)

lemma solved_grid_entry:
  assumes "solved_grid g" "k < 81"
  shows "0 < entry g k"
proof -
  have "k div 9 < length g" "k mod 9 < length (g ! (k div 9))"
    using assms by (simp_all add: solved_grid_def grid9_nth)
  then have "g ! (k div 9) \<in> set g" "g ! (k div 9) ! (k mod 9) \<in> set (g ! (k div 9))"
    by simp_all
  then have "1 \<le> g ! (k div 9) ! (k mod 9)"
    using assms(1) unfolding solved_grid_def by blast
  then show ?thesis
    by (simp add: entry_def)
qed

lemma distinct_check_area: "distinct xs \<Longrightarrow> check_area xs"
  by (simp add: check_area_distinct)

lemma solved_grid_valid:
  assumes "solved_grid g" "r < 9" "c < 9"
  shows "valid_at g r c"
proof -
  have g: "grid9 g"
    using assms(1) by (simp add: solved_grid_def)
  have "distinct (g ! r)" "distinct (map (\<lambda>rw. rw ! c) g)" "distinct (map (at g) (box_pos r c))"
    using assms by (simp_all add: solved_grid_def)
  then show ?thesis
    unfolding valid_at_def box_as_pos [OF g assms(2,3)]
    by (simp add: distinct_check_area)
qed

lemma move_forward_all_solved:
  assumes "\<forall>i<length (solve_puzzle s). solved (solve_puzzle s ! i)"
    and "0 \<le> backtrack_coord s" "backtrack_coord s \<le> int (length (solve_puzzle s)) - 1"
  shows "move_forward s = Inr (s\<lparr>backtrack_coord := int (length (solve_puzzle s)) - 1\<rparr>)"
  using assms
proof (induction "nat (int (length (solve_puzzle s)) - 1 - backtrack_coord s)" arbitrary: s)
  case 0
  then have "backtrack_coord s = int (length (solve_puzzle s)) - 1"
    by simp
  then show ?case
    by (subst move_forward.simps) simp
next
  case (Suc n)
  then have lt: "backtrack_coord s < int (length (solve_puzzle s)) - 1"
    by simp
  then have "py_get (solve_puzzle s) (backtrack_coord s) =
      Inr (solve_puzzle s ! nat (backtrack_coord s))"
    using Suc.prems(2) by (simp add: py_get_def py_pos_def)
  moreover have "solved (solve_puzzle s ! nat (backtrack_coord s))"
    using Suc.prems lt by simp
  ultimately have "move_forward s = move_forward (s\<lparr>backtrack_coord := backtrack_coord s + 1\<rparr>)"
    using lt by (subst move_forward.simps) simp
  also have "\<dots> = Inr (s\<lparr>backtrack_coord := int (length (solve_puzzle s)) - 1\<rparr>)"
    using Suc.hyps(1) [of "s\<lparr>backtrack_coord := backtrack_coord s + 1\<rparr>"] Suc.hyps(2) Suc.prems lt
    by simp
  finally show ?case .
qed

lemma run_solve_done:
  "\<not> backtrack_coord s \<le> int (length (solve_puzzle s)) - 1 \<Longrightarrow> run_solve n s = Some (Inr s)"
  by (cases n) simp_all

lemma solved_board_step:
  assumes "solved_grid g"
  shows "solver_solve (start_board g) = Inr ((start_board g)\<lparr>backtrack_coord := 81\<rparr>)"
proof -
  let ?s = "start_board g"
  let ?s1 = "?s\<lparr>backtrack_coord := 80\<rparr>"
  note ig = solved_grid_input [OF assms]
  have ok: "board_ok g ?s" "backtrack_coord ?s = 0"
    using start_board_ok [OF ig] by simp_all
  have len: "length (solve_puzzle ?s) = 81" and pz: "puzzle ?s = g" and bs: "box_size ?s = 3"
    and g9: "grid9 g"
    using ok(1) ig new_solver_grid9 [of g]
    by (simp_all add: board_ok_def start_board_def input_grid_def)
  have cell: "solve_puzzle ?s ! k = built_cell g (k div 9) (k mod 9)" if "k < 81" for k
    using that by (simp add: start_board_def board_cells_nth)
  have fixed: "solved (solve_puzzle ?s ! k) \<and> possibilities (solve_puzzle ?s ! k) = []"
    if "k < 81" for k
    using cell [OF that] built_cell_fixed [OF solved_grid_entry [OF assms that]] by simp
  have m: "move_forward ?s = Inr ?s1"
    using move_forward_all_solved [of ?s] fixed ok(2) len by simp
  have sc: "set_cell ?s1 = Inr (80, ?s1)"
    using fixed [of 80] len by (simp add: set_cell_def py_pos_def set_number_def)
  have rc: "row (solve_puzzle ?s1 ! 80) = 8" "column (solve_puzzle ?s1 ! 80) = 8"
    using cell [of 80] by (simp_all add: built_cell_fields)
  have iv: "increment_value (solve_puzzle ?s1 ! 80) ?s1 = Inr (solve_puzzle ?s1 ! 80, ?s1)"
    using increment_value_solved [of ?s1 "solve_puzzle ?s1 ! 80"] fixed [of 80] rc pz bs g9
    by simp
  have cc: "change_cells 80 ?s1 = Inr (?s1\<lparr>backtrack_coord := 81\<rparr>)"
    using change_cells_forward [of ?s1 80] rc pz bs g9 solved_grid_valid [OF assms, of 8 8]
    by simp
  have iv': "increment_value (solve_puzzle ?s ! 80) ?s1 = Inr (solve_puzzle ?s ! 80, ?s1)"
    using iv by simp
  show ?thesis
    unfolding solver_solve_def by (simp add: m sc iv' cc)
qed

subsection \<open>Where \<open>backtrack\<close> stops\<close>

lemma py_get_cell_at:
  "- int (length (solve_puzzle s)) \<le> j \<Longrightarrow> j < int (length (solve_puzzle s)) \<Longrightarrow>
     py_get (solve_puzzle s) j = Inr (cell_at s j)"
  by (simp add: py_get_def py_pos_def cell_at_def Let_def)

lemma py_get_below:
  "j < - int (length xs) \<Longrightarrow> py_get xs j = Inl IndexError"
  by (simp add: py_get_def py_pos_def Let_def)

lemma cell_at_cursor [simp]: "cell_at (s\<lparr>backtrack_coord := p\<rparr>) j = cell_at s j"
  by (simp add: cell_at_def)

lemma backtrack_loop_fault:
  assumes "p < int (length (solve_puzzle s))"
    and "\<forall>j. - int (length (solve_puzzle s)) \<le> j \<and> j \<le> p \<longrightarrow> solved (cell_at s j)"
  shows "backtrack_loop (s\<lparr>backtrack_coord := p\<rparr>) = Inl IndexError"
  using assms
proof (induction "nat (p + int (length (solve_puzzle s)) + 1)" arbitrary: p)
  case 0
  then have "p < - int (length (solve_puzzle s))"
    by simp
  then show ?case
    by (subst backtrack_loop.simps) (simp add: py_get_below)
next
  case (Suc n)
  then have lo: "- int (length (solve_puzzle s)) \<le> p"
    by simp
  have g: "py_get (solve_puzzle s) p = Inr (cell_at s p)"
    using py_get_cell_at [OF lo Suc.prems(1)] .
  have "solved (cell_at s p)"
    using Suc.prems(2) lo by simp
  then have "backtrack_loop (s\<lparr>backtrack_coord := p\<rparr>) =
      backtrack_loop (s\<lparr>backtrack_coord := p - 1\<rparr>)"
    using g by (subst backtrack_loop.simps) simp
  also have "\<dots> = Inl IndexError"
    using Suc.hyps(1) [of "p - 1"] Suc.hyps(2) Suc.prems by simp
  finally show ?case .
qed

lemma backtrack_loop_stop:
  assumes "- int (length (solve_puzzle s)) \<le> q" "q \<le> p" "p < int (length (solve_puzzle s))"
    and "\<not> solved (cell_at s q)" "\<forall>j. q < j \<and> j \<le> p \<longrightarrow> solved (cell_at s j)"
  shows "backtrack_loop (s\<lparr>backtrack_coord := p\<rparr>) = Inr (s\<lparr>backtrack_coord := q\<rparr>)"
  using assms
proof (induction "nat (p - q)" arbitrary: p)
  case 0
  then have "p = q"
    by simp
  then show ?case
    using py_get_cell_at [OF "0.prems"(1), of] "0.prems"
    by (subst backtrack_loop.simps) simp
next
  case (Suc n)
  then have lt: "q < p"
    by simp
  have g: "py_get (solve_puzzle s) p = Inr (cell_at s p)"
    using py_get_cell_at [of s p] Suc.prems lt by simp
  have "solved (cell_at s p)"
    using Suc.prems(5) lt by simp
  then have "backtrack_loop (s\<lparr>backtrack_coord := p\<rparr>) =
      backtrack_loop (s\<lparr>backtrack_coord := p - 1\<rparr>)"
    using g by (subst backtrack_loop.simps) simp
  also have "\<dots> = Inr (s\<lparr>backtrack_coord := q\<rparr>)"
    using Suc.hyps(1) [of "p - 1"] Suc.hyps(2) Suc.prems lt by simp
  finally show ?case .
qed

subsection \<open>Evaluations on the example boards\<close>

lemma solution_solved: "solved_grid solution"
  by code_simp

lemma two_open_input: "input_grid two_open_puzzle"
  by code_simp

lemma dup_row_input: "input_grid dup_row_puzzle"
  by code_simp

lemma example_input: "input_grid example_puzzle"
  by code_simp

lemma two_open_first_step:
  "solver_solve (start_board two_open_puzzle) =
     Inr ((place 0 0 (start_board two_open_puzzle))\<lparr>backtrack_coord := 1\<rparr>)"
  by code_simp

lemma dup_row_first_step:
  "solver_solve (start_board dup_row_puzzle) =
     Inr ((start_board dup_row_puzzle)
       \<lparr>solve_puzzle := (solve_puzzle (start_board dup_row_puzzle))
          [80 := (solve_puzzle (start_board dup_row_puzzle) ! 80)\<lparr>current_index := 1\<rparr>],
        backtrack_coord := - 1\<rparr>)"
  by code_simp

lemma dup_row_still_running: "run_solve 3 (start_board dup_row_puzzle) = None"
  by code_simp

lemma two_open_run: "solve 3 two_open_puzzle = Some (Inr two_open_result)"
  by code_simp

lemma start_cell:
  "k < 81 \<Longrightarrow> solve_puzzle (start_board g) ! k = built_cell g (k div 9) (k mod 9)"
  by (simp add: start_board_def board_cells_nth)

lemma start_fields:
  "puzzle (start_board g) = g" "backtrack_coord (start_board g) = 0"
  "length (solve_puzzle (start_board g)) = 81"
  by (simp_all add: start_board_def new_solver_def board_cells_length)

lemma two_open_candidates_0_0: "candidates two_open_puzzle 0 0 = [5, 6]"
  by code_simp

lemma two_open_cell_0:
  "built_cell two_open_puzzle 0 0 =
     \<lparr>solved = False, number = 0, possibilities = [5, 6], row = 0, column = 0,
      current_index = 0\<rparr>"
proof -
  have "two_open_puzzle ! 0 ! 0 = 0"
    by (simp add: two_open_puzzle_def)
  then show ?thesis
    by (simp add: built_cell_def two_open_candidates_0_0)
qed

lemma dup_row_candidates_8_8: "candidates dup_row_puzzle 8 8 = [1, 2, 3, 4, 5, 6, 7, 8, 9]"
  by code_simp

lemma dup_row_cells:
  "solved (solve_puzzle (start_board dup_row_puzzle) ! 0)"
  "solved (solve_puzzle (start_board dup_row_puzzle) ! 1)"
  "\<not> solved (solve_puzzle (start_board dup_row_puzzle) ! 80)"
  by (simp_all add: start_cell built_cell_def dup_row_puzzle_def [THEN arg_cong, of "\<lambda>g. g ! 0 ! 0"]
      dup_row_candidates_8_8) (simp_all add: dup_row_puzzle_def)

lemma dup_row_backtrack:
  "backtrack ((start_board dup_row_puzzle)\<lparr>backtrack_coord := 2\<rparr>) =
     Inr ((start_board dup_row_puzzle)\<lparr>backtrack_coord := - 1\<rparr>)"
proof -
  let ?s = "start_board dup_row_puzzle"
  have "\<forall>j. - 1 < j \<and> j \<le> 1 \<longrightarrow> solved (cell_at ?s j)"
  proof (intro allI impI)
    fix j :: int
    assume "- 1 < j \<and> j \<le> 1"
    then have "j = 0 \<or> j = 1"
      by auto
    then show "solved (cell_at ?s j)"
      using dup_row_cells by (auto simp: cell_at_def)
  qed
  then show ?thesis
    using backtrack_loop_stop [of ?s "- 1" 1] dup_row_cells(3)
    by (simp add: backtrack_def cell_at_def start_fields)
qed

subsection \<open>Cells that construction marks solved without a value\<close>

lemma single_candidate_stays_empty:
  assumes "input_grid g" "r < 9" "c < 9" "\<not> 0 < g ! r ! c" "length (candidates g r c) = 1"
    and "solve fuel g = Some (Inr g')"
  shows "g' ! r ! c = 0"
proof -
  let ?k = "9 * r + c"
  have k: "?k < 81"
    using assms(2,3) by simp
  have z: "entry g ?k = 0"
    using input_entry [OF assms(1) k] assms(2,3,4) by (simp add: entry_at)
  have b: "solved (built_cell g (?k div 9) (?k mod 9))"
    using assms(2,3,4,5) by (simp add: built_cell_def)
  obtain t where t: "run_solve fuel (start_board g) = Some (Inr t)" "g' = puzzle t"
    using assms(6) initialize_board_start [OF assms(1)]
    by (auto simp: solve_def split: option.splits sum.splits)
  have "board_ok g t"
    using reached_ok [OF assms(1) initialize_board_start [OF assms(1)]] run_solve_reaches [OF t(1)]
    by simp
  then have "cell_ok g (puzzle t) ?k (solve_puzzle t ! ?k)"
    using k by (simp add: board_ok_def)
  then have "entry (puzzle t) ?k = 0"
    using b z by (simp add: cell_ok_def)
  then show ?thesis
    using t(2) assms(2,3) by (simp add: entry_at)
qed

lemma example_candidates_6_5: "candidates example_puzzle 6 5 = [7]"
  by code_simp

lemma example_candidates_6_8: "candidates example_puzzle 6 8 = [4]"
  by code_simp

lemma example_candidates_7_7: "candidates example_puzzle 7 7 = [3]"
  by code_simp

lemma example_single_candidates_stay_empty:
  assumes "solve fuel example_puzzle = Some (Inr g')"
  shows "g' ! 4 ! 4 = 0 \<and> g' ! 6 ! 5 = 0 \<and> g' ! 6 ! 8 = 0 \<and> g' ! 7 ! 7 = 0"
proof -
  have e: "\<not> 0 < example_puzzle ! 4 ! 4" "\<not> 0 < example_puzzle ! 6 ! 5"
    "\<not> 0 < example_puzzle ! 6 ! 8" "\<not> 0 < example_puzzle ! 7 ! 7"
    by (simp_all add: example_puzzle_def)
  show ?thesis
    using single_candidate_stays_empty [OF example_input _ _ e(1) _ assms]
      single_candidate_stays_empty [OF example_input _ _ e(2) _ assms]
      single_candidate_stays_empty [OF example_input _ _ e(3) _ assms]
      single_candidate_stays_empty [OF example_input _ _ e(4) _ assms]
    by (simp add: example_candidates_4_4 example_candidates_6_5 example_candidates_6_8
        example_candidates_7_7)
qed

section \<open>The claims\<close>

text \<open>
  Claim C1 says that a cell left with exactly one candidate at construction is marked
  solved, takes that candidate as its value and writes it into the grid.
  \<open>handle_one_possibility\<close> sets \<open>solved\<close> before it calls \<open>set_number\<close>, which does
  nothing on a solved cell: at cell \<open>(4, 4)\<close> of the example puzzle, whose only candidate
  is 5, the cell is marked solved and its value and the grid entry stay 0.
\<close>

theorem single_candidate_not_committed:
  "new_cell 4 4 (example_puzzle ! 4 ! 4) (new_solver example_puzzle) =
     Inr (\<lparr>solved = True, number = 0, possibilities = [5], row = 4, column = 4,
           current_index = 0\<rparr>, new_solver example_puzzle) \<and>
   puzzle (new_solver example_puzzle) ! 4 ! 4 = 0"
proof -
  have p: "puzzle (new_solver example_puzzle) = example_puzzle"
    by (simp add: new_solver_def)
  have b: "box_size (new_solver example_puzzle) = 3"
    using new_solver_grid9 [OF example_grid9] by simp
  have z: "example_puzzle ! 4 ! 4 = 0"
    by (simp add: example_puzzle_def)
  show ?thesis
    using new_cell_built [of "new_solver example_puzzle" 4 4] example_grid9 b
    by (simp add: p built_cell_def example_candidates_4_4 z)
qed

text \<open>
  Claim C2 says that \<open>solve\<close> returns the completion of the example puzzle (the grid
  \<open>solution\<close> of the source). The four cells of the example puzzle that have a single
  candidate at construction are marked solved and never written (claim C1), so a grid
  that \<open>solve\<close> returns for the example puzzle has 0 at \<open>(4, 4)\<close>, \<open>(6, 5)\<close>, \<open>(6, 8)\<close>
  and \<open>(7, 7)\<close>, where the completion has 5, 7, 4 and 3: with no number of iterations
  does \<open>solve\<close> return the completion.
\<close>

theorem example_puzzle_is_not_completed:
  "(\<forall>fuel. solve fuel example_puzzle \<noteq> Some (Inr solution)) \<and>
   solution ! 4 ! 4 = 5 \<and> solution ! 6 ! 5 = 7 \<and> solution ! 6 ! 8 = 4 \<and> solution ! 7 ! 7 = 3"
proof -
  have s: "solution ! 4 ! 4 = 5" "solution ! 6 ! 5 = 7" "solution ! 6 ! 8 = 4" "solution ! 7 ! 7 = 3"
    by (simp_all add: solution_def)
  have "solve fuel example_puzzle \<noteq> Some (Inr solution)" for fuel
    using example_single_candidates_stay_empty [of fuel solution] s(1) by auto
  then show ?thesis
    using s by blast
qed

text \<open>
  Claim C3. For a 9 by 9 input grid of non-negative entries and a coordinate whose input
  entry is nonzero: the grid that \<open>solve\<close> returns has the input entry there; and in every
  state of the main loop the grid entry and the cell's \<open>number\<close> are the input entry and
  the cell is solved, so no operation of the search has changed them.
\<close>

theorem clues_are_never_overwritten:
  assumes "input_grid g" "r < 9" "c < 9" "g ! r ! c \<noteq> 0"
  shows "(solve fuel g = Some (Inr g') \<longrightarrow> g' ! r ! c = g ! r ! c) \<and>
     (initialize_board (new_solver g) = Inr s0 \<and> reaches s0 s \<longrightarrow>
        puzzle s ! r ! c = g ! r ! c \<and> number (solve_puzzle s ! (9 * r + c)) = g ! r ! c \<and>
        solved (solve_puzzle s ! (9 * r + c)))"
proof -
  let ?k = "9 * r + c"
  have k: "?k < 81"
    using assms(2,3) by simp
  have pos: "0 < entry g ?k"
    using input_entry [OF assms(1) k] assms(2,3,4) by (simp add: entry_at)
  have inv: "puzzle s ! r ! c = g ! r ! c \<and> number (solve_puzzle s ! ?k) = g ! r ! c \<and>
      solved (solve_puzzle s ! ?k)"
    if "initialize_board (new_solver g) = Inr s0" "reaches s0 s" for s0 s
  proof -
    have "board_ok g s"
      using reached_ok [OF assms(1) that] by simp
    then have "cell_ok g (puzzle s) ?k (solve_puzzle s ! ?k)"
      using k by (simp add: board_ok_def)
    then show ?thesis
      using built_cell_fixed [OF pos] pos assms(2,3)
      by (simp add: cell_ok_def entry_at [symmetric])
  qed
  have "g' ! r ! c = g ! r ! c" if sv: "solve fuel g = Some (Inr g')"
  proof -
    obtain t where t: "run_solve fuel (start_board g) = Some (Inr t)" "g' = puzzle t"
      using sv initialize_board_start [OF assms(1)]
      by (auto simp: solve_def split: option.splits sum.splits)
    then show ?thesis
      using inv [OF initialize_board_start [OF assms(1)], of t] run_solve_reaches [OF t(1)]
      by simp
  qed
  then show ?thesis
    using inv by blast
qed

theorem clues_are_never_overwritten_witness:
  "input_grid two_open_puzzle \<and> (0::nat) < 9 \<and> (1::nat) < 9 \<and> two_open_puzzle ! 0 ! 1 \<noteq> 0 \<and>
   solve 3 two_open_puzzle = Some (Inr two_open_result) \<and>
   two_open_result ! 0 ! 1 = two_open_puzzle ! 0 ! 1 \<and> two_open_puzzle ! 0 ! 1 = 3 \<and>
   initialize_board (new_solver two_open_puzzle) = Inr (start_board two_open_puzzle) \<and>
   reaches (start_board two_open_puzzle)
     ((place 0 0 (start_board two_open_puzzle))\<lparr>backtrack_coord := 1\<rparr>) \<and>
   puzzle ((place 0 0 (start_board two_open_puzzle))\<lparr>backtrack_coord := 1\<rparr>) ! 0 ! 1 = 3 \<and>
   number (solve_puzzle ((place 0 0 (start_board two_open_puzzle))\<lparr>backtrack_coord := 1\<rparr>) ! 1) = 3 \<and>
   solved (solve_puzzle ((place 0 0 (start_board two_open_puzzle))\<lparr>backtrack_coord := 1\<rparr>) ! 1)"
proof -
  let ?s0 = "start_board two_open_puzzle"
  let ?s1 = "(place 0 0 ?s0)\<lparr>backtrack_coord := 1\<rparr>"
  have n: "two_open_puzzle ! 0 ! 1 \<noteq> 0" "two_open_puzzle ! 0 ! 1 = 3"
    by (simp_all add: two_open_puzzle_def)
  note init = initialize_board_start [OF two_open_input]
  have r: "reaches ?s0 ?s1"
    using reaches.step [OF reaches.start _ two_open_first_step] by (simp add: start_fields)
  note t = clues_are_never_overwritten [OF two_open_input _ _ n(1), of 3 two_open_result ?s0 ?s1]
  have "two_open_result ! 0 ! 1 = two_open_puzzle ! 0 ! 1"
    using t two_open_run by simp
  moreover have "puzzle ?s1 ! 0 ! 1 = 3 \<and> number (solve_puzzle ?s1 ! 1) = 3 \<and>
      solved (solve_puzzle ?s1 ! 1)"
    using t init r n(2) by simp
  ultimately show ?thesis
    using two_open_input two_open_run n init r by simp
qed

text \<open>
  Claim C4 says that \<open>backtrack\<close>, called when no unsolved cell lies before the cursor,
  runs the cursor past the first cell and faults. It does run the cursor below 0, but
  Python reads a negative index from the end of the list: on the grid whose first row
  starts 5, 5, the first iteration exhausts the first open cell \<open>(0, 2)\<close>, \<open>backtrack\<close>
  returns with the cursor at \<open>-1\<close> (cell 80), the iteration ends without a fault and
  the loop is still running two iterations later.
\<close>

theorem exhausted_search_wraps_counterexample:
  "initialize_board (new_solver dup_row_puzzle) = Inr (start_board dup_row_puzzle) \<and>
   solved (solve_puzzle (start_board dup_row_puzzle) ! 0) \<and>
   solved (solve_puzzle (start_board dup_row_puzzle) ! 1) \<and>
   backtrack ((start_board dup_row_puzzle)\<lparr>backtrack_coord := 2\<rparr>) =
     Inr ((start_board dup_row_puzzle)\<lparr>backtrack_coord := - 1\<rparr>) \<and>
   solver_solve (start_board dup_row_puzzle) =
     Inr ((start_board dup_row_puzzle)
       \<lparr>solve_puzzle := (solve_puzzle (start_board dup_row_puzzle))
          [80 := (solve_puzzle (start_board dup_row_puzzle) ! 80)\<lparr>current_index := 1\<rparr>],
        backtrack_coord := - 1\<rparr>) \<and>
   run_solve 3 (start_board dup_row_puzzle) = None"
  using initialize_board_start [OF dup_row_input] dup_row_cells dup_row_backtrack
    dup_row_first_step dup_row_still_running
  by simp

text \<open>
  Claim C4, amended. When no unsolved cell lies at an index before the cursor,
  \<open>backtrack\<close> raises \<open>IndexError\<close> if every cell of the list is solved; otherwise it
  returns with the cursor at \<open>i - n\<close>, where \<open>i\<close> is the last unsolved cell and \<open>n\<close> the
  number of cells: a negative cursor that addresses cell \<open>i\<close>. Nothing but the cursor
  changes.
\<close>

theorem backtrack_wraps_to_last_open_cell:
  assumes "0 \<le> backtrack_coord s" "backtrack_coord s \<le> int (length (solve_puzzle s))"
    and "\<forall>i. int i < backtrack_coord s \<longrightarrow> solved (solve_puzzle s ! i)"
  shows "((\<forall>c \<in> set (solve_puzzle s). solved c) \<longrightarrow> backtrack s = Inl IndexError) \<and>
     (i < length (solve_puzzle s) \<and> \<not> solved (solve_puzzle s ! i) \<and>
      (\<forall>i'. i < i' \<and> i' < length (solve_puzzle s) \<longrightarrow> solved (solve_puzzle s ! i')) \<longrightarrow>
        backtrack s =
          Inr (s\<lparr>backtrack_coord := int i - int (length (solve_puzzle s))\<rparr>))"
proof (intro conjI impI)
  let ?n = "int (length (solve_puzzle s))"
  assume all: "\<forall>c \<in> set (solve_puzzle s). solved c"
  have "solved (cell_at s j)" if "- ?n \<le> j" "j \<le> backtrack_coord s - 1" for j
    using that assms(2) all by (simp add: cell_at_def)
  then show "backtrack s = Inl IndexError"
    using backtrack_loop_fault [of "backtrack_coord s - 1" s] assms(2)
    by (simp add: backtrack_def)
next
  let ?n = "int (length (solve_puzzle s))"
  assume i: "i < length (solve_puzzle s) \<and> \<not> solved (solve_puzzle s ! i) \<and>
      (\<forall>i'. i < i' \<and> i' < length (solve_puzzle s) \<longrightarrow> solved (solve_puzzle s ! i'))"
  have q: "cell_at s (int i - ?n) = solve_puzzle s ! i"
    using i by (simp add: cell_at_def)
  have "solved (cell_at s j)" if j: "int i - ?n < j" "j \<le> backtrack_coord s - 1" for j
  proof (cases "j < 0")
    case True
    then have "i < nat (j + ?n)" "nat (j + ?n) < length (solve_puzzle s)"
      using j by simp_all
    then show ?thesis
      using i True by (simp add: cell_at_def)
  next
    case False
    then have "int (nat j) < backtrack_coord s"
      using j by simp
    then show ?thesis
      using assms(3) False by (simp add: cell_at_def)
  qed
  then show "backtrack s = Inr (s\<lparr>backtrack_coord := int i - ?n\<rparr>)"
    using backtrack_loop_stop [of s "int i - ?n" "backtrack_coord s - 1"] q i assms(1,2)
    by (simp add: backtrack_def)
qed

theorem backtrack_wraps_to_last_open_cell_witness:
  "solved (solve_puzzle (start_board dup_row_puzzle) ! 0) \<and>
   solved (solve_puzzle (start_board dup_row_puzzle) ! 1) \<and>
   \<not> solved (solve_puzzle (start_board dup_row_puzzle) ! 80) \<and>
   backtrack ((start_board dup_row_puzzle)\<lparr>backtrack_coord := 2\<rparr>) =
     Inr ((start_board dup_row_puzzle)\<lparr>backtrack_coord := - 1\<rparr>) \<and>
   backtrack ((start_board solution)\<lparr>backtrack_coord := 80\<rparr>) = Inl IndexError"
proof -
  let ?s = "(start_board dup_row_puzzle)\<lparr>backtrack_coord := 2\<rparr>"
  have "\<forall>i. int i < backtrack_coord ?s \<longrightarrow> solved (solve_puzzle ?s ! i)"
  proof (intro allI impI)
    fix i :: nat
    assume "int i < backtrack_coord ?s"
    then have "i = 0 \<or> i = 1"
      by auto
    then show "solved (solve_puzzle ?s ! i)"
      using dup_row_cells by auto
  qed
  moreover have "\<forall>i'. 80 < i' \<and> i' < length (solve_puzzle ?s) \<longrightarrow> solved (solve_puzzle ?s ! i')"
    by (auto simp: start_fields)
  ultimately have a: "backtrack ?s = Inr ((start_board dup_row_puzzle)\<lparr>backtrack_coord := - 1\<rparr>)"
    using backtrack_wraps_to_last_open_cell [of ?s 80] dup_row_cells(3)
    by (simp add: start_fields)
  let ?t = "(start_board solution)\<lparr>backtrack_coord := 80\<rparr>"
  have all: "\<forall>c \<in> set (solve_puzzle ?t). solved c"
  proof
    fix c
    assume "c \<in> set (solve_puzzle ?t)"
    then obtain k where "k < 81" "c = solve_puzzle (start_board solution) ! k"
      by (auto simp: in_set_conv_nth start_fields)
    then show "solved c"
      using built_cell_fixed [OF solved_grid_entry [OF solution_solved, of k]]
      by (simp add: start_cell)
  qed
  then have "\<forall>i. int i < backtrack_coord ?t \<longrightarrow> solved (solve_puzzle ?t ! i)"
    by (simp add: start_fields)
  from backtrack_wraps_to_last_open_cell [of ?t 0, OF _ _ this]
  have b: "backtrack ?t = Inl IndexError"
    using all by (simp add: start_fields)
  show ?thesis
    using a b dup_row_cells by simp
qed

text \<open>
  Claim C5. For a cell that is not fixed by the puzzle, the candidates computed at
  construction are, as a set, \<open>{1..9}\<close> without the nonzero digits of the cell's row,
  column and box in the grid at that moment. The result is a function of the grid.
\<close>

theorem candidates_are_unit_complement:
  assumes "grid9 (puzzle game)" "box_size game = 3" "r < 9" "c < 9"
    and "\<not> 0 < puzzle game ! r ! c"
  shows "\<exists>cl. new_cell c r (puzzle game ! r ! c) game = Inr (cl, game) \<and>
     set (possibilities cl) =
       {1..9} - {d. d \<noteq> 0 \<and>
                   (d \<in> {puzzle game ! r ! j | j. j < 9} \<or>
                    d \<in> {puzzle game ! i ! c | i. i < 9} \<or>
                    d \<in> {puzzle game ! (r div 3 * 3 + a) ! (c div 3 * 3 + b) | a b.
                           a < 3 \<and> b < 3})}"
proof -
  let ?g = "puzzle game"
  have len: "length ?g = 9" "length (?g ! r) = 9"
    using assms(1,3) by (simp_all add: grid9_def)
  have u: "set (unit_items ?g r c) =
      {?g ! r ! j | j. j < 9} \<union> {?g ! i ! c | i. i < 9} \<union>
      {?g ! (r div 3 * 3 + a) ! (c div 3 * 3 + b) | a b. a < 3 \<and> b < 3}"
    unfolding unit_items_def set_append
    by (simp only: set_row9 [OF len(2)] set_column9 [OF len(1)]
        set_box9 [OF assms(1,3,4)] Un_assoc)
  have "set (candidates ?g r c) = {1..9} - set (unit_items ?g r c)"
    unfolding candidates_def set_filter digits_1_9 by auto
  then have "set (possibilities (built_cell ?g r c)) =
       {1..9} - {d. d \<noteq> 0 \<and>
                   (d \<in> {?g ! r ! j | j. j < 9} \<or>
                    d \<in> {?g ! i ! c | i. i < 9} \<or>
                    d \<in> {?g ! (r div 3 * 3 + a) ! (c div 3 * 3 + b) | a b.
                           a < 3 \<and> b < 3})}"
    using assms(5) unfolding u by (auto simp: built_cell_def)
  then show ?thesis
    using new_cell_built [OF assms(1,2,3,4)] by blast
qed

theorem candidates_are_unit_complement_witness:
  "grid9 (puzzle (new_solver example_puzzle)) \<and> box_size (new_solver example_puzzle) = 3 \<and>
   (0::nat) < 9 \<and> (2::nat) < 9 \<and> \<not> 0 < puzzle (new_solver example_puzzle) ! 0 ! 2 \<and>
   (\<exists>cl. new_cell 2 0 (puzzle (new_solver example_puzzle) ! 0 ! 2) (new_solver example_puzzle) =
            Inr (cl, new_solver example_puzzle) \<and>
         possibilities cl = [1, 2, 4] \<and>
         set (possibilities cl) =
           {1..9} - {d. d \<noteq> 0 \<and>
              (d \<in> {puzzle (new_solver example_puzzle) ! 0 ! j | j. j < 9} \<or>
               d \<in> {puzzle (new_solver example_puzzle) ! i ! 2 | i. i < 9} \<or>
               d \<in> {puzzle (new_solver example_puzzle) ! (0 div 3 * 3 + a) ! (2 div 3 * 3 + b) | a b.
                      a < 3 \<and> b < 3})})"
proof -
  let ?G = "new_solver example_puzzle"
  have g: "grid9 (puzzle ?G)" and b: "box_size ?G = 3"
    using new_solver_grid9 [OF example_grid9] example_grid9 by simp_all
  have z: "\<not> 0 < puzzle ?G ! 0 ! 2"
    by (simp add: new_solver_def example_puzzle_def)
  have n: "new_cell 2 0 (puzzle ?G ! 0 ! 2) ?G = Inr (built_cell (puzzle ?G) 0 2, ?G)"
    using new_cell_built [OF g b, of 0 2] by simp
  have p: "possibilities (built_cell (puzzle ?G) 0 2) = [1, 2, 4]"
    using z new_solver_grid9 [OF example_grid9]
    by (simp add: built_cell_def example_candidates_0_2)
  from candidates_are_unit_complement [OF g b _ _ z, of ] n p g b z
  show ?thesis
    by auto
qed

text \<open>
  Claim C6. In every state of the main loop on an initialised board (of a 9 by 9 input
  grid of non-negative entries), a cell at an index before the cursor is solved, or holds
  a nonzero value that is also in the grid and is valid in the grid as it is; and when an
  iteration moves the cursor forward, every cell it passes is solved or valid in the
  state in which the iteration ends.
\<close>

theorem cells_before_cursor_are_fixed_or_valid:
  assumes "input_grid g" "initialize_board (new_solver g) = Inr s0" "reaches s0 s"
  shows "(k < 81 \<and> int k < backtrack_coord s \<longrightarrow>
        solved (solve_puzzle s ! k) \<or>
        number (solve_puzzle s ! k) \<noteq> 0 \<and>
        puzzle s ! (k div 9) ! (k mod 9) = number (solve_puzzle s ! k) \<and>
        is_valid (solve_puzzle s ! k) s = Inr True) \<and>
     (solver_solve s = Inr s' \<and> backtrack_coord s \<le> j \<and> j < backtrack_coord s' \<longrightarrow>
        (\<exists>i. py_pos 81 j = Inr i \<and>
           (solved (solve_puzzle s' ! i) \<or> is_valid (solve_puzzle s' ! i) s' = Inr True)))"
proof -
  note ok = reached_ok [OF assms]
  have first: "solved (solve_puzzle s ! k) \<or>
        number (solve_puzzle s ! k) \<noteq> 0 \<and>
        puzzle s ! (k div 9) ! (k mod 9) = number (solve_puzzle s ! k) \<and>
        is_valid (solve_puzzle s ! k) s = Inr True"
    if k: "k < 81" "int k < backtrack_coord s"
  proof (cases "solved (solve_puzzle s ! k)")
    case True
    then show ?thesis by simp
  next
    case False
    have e: "entry (puzzle s) k \<noteq> 0 \<and> number (solve_puzzle s ! k) = entry (puzzle s) k"
      using ok k False by (simp add: passed_ok_def)
    have "cell_ok g (puzzle s) k (solve_puzzle s ! k)"
      using ok k by (simp add: board_ok_def)
    then have "valid_at (puzzle s) (k div 9) (k mod 9)"
      using False e by (simp add: cell_ok_def)
    then show ?thesis
      using e board_ok_is_valid [of g s k] ok k by (simp add: entry_def)
  qed
  have second: "\<exists>i. py_pos 81 j = Inr i \<and>
           (solved (solve_puzzle s' ! i) \<or> is_valid (solve_puzzle s' ! i) s' = Inr True)"
    if st: "solver_solve s = Inr s'" "backtrack_coord s \<le> j" "j < backtrack_coord s'"
  proof -
    from solver_solve_ok [OF assms(1) _ _ st(1)] ok
    obtain p k where ok': "board_ok g s'"
      and p: "backtrack_coord s \<le> p" "py_pos 81 p = Inr k"
        "\<forall>j. backtrack_coord s \<le> j \<and> j < p \<longrightarrow>
             (\<exists>c. py_get (solve_puzzle s) j = Inr c \<and> solved c)"
        "backtrack_coord s' \<le> p \<or>
         backtrack_coord s' = p + 1 \<and> valid_at (puzzle s') (k div 9) (k mod 9)"
      by auto
    have len: "length (solve_puzzle s) = 81"
      using ok by (simp add: board_ok_def)
    show ?thesis
    proof (cases "j < p")
      case True
      then obtain c where "py_get (solve_puzzle s) j = Inr c" "solved c"
        using p(3) st(2) by blast
      then obtain i where i: "py_pos 81 j = Inr i" "solved (solve_puzzle s ! i)"
        by (auto simp: py_get_def len split: sum.splits)
      then have "i < 81"
        using py_pos_cursor [OF i(1)] by simp
      then show ?thesis
        using i board_ok_flags [of g s s' i] ok ok' by simp
    next
      case False
      then have "j = p" "valid_at (puzzle s') (k div 9) (k mod 9)"
        using p(4) st(3) by auto
      moreover have "k < 81"
        using py_pos_cursor [OF p(2)] by simp
      ultimately show ?thesis
        using p(2) board_ok_is_valid [OF ok' \<open>k < 81\<close>] by simp
    qed
  qed
  show ?thesis
    using first second by blast
qed

theorem cells_before_cursor_are_fixed_or_valid_witness:
  "input_grid two_open_puzzle \<and>
   initialize_board (new_solver two_open_puzzle) = Inr (start_board two_open_puzzle) \<and>
   reaches (start_board two_open_puzzle)
     ((place 0 0 (start_board two_open_puzzle))\<lparr>backtrack_coord := 1\<rparr>) \<and>
   (0::nat) < 81 \<and>
   int 0 < backtrack_coord ((place 0 0 (start_board two_open_puzzle))\<lparr>backtrack_coord := 1\<rparr>) \<and>
   \<not> solved (solve_puzzle ((place 0 0 (start_board two_open_puzzle))\<lparr>backtrack_coord := 1\<rparr>) ! 0) \<and>
   number (solve_puzzle ((place 0 0 (start_board two_open_puzzle))\<lparr>backtrack_coord := 1\<rparr>) ! 0) = 5 \<and>
   is_valid (solve_puzzle ((place 0 0 (start_board two_open_puzzle))\<lparr>backtrack_coord := 1\<rparr>) ! 0)
     ((place 0 0 (start_board two_open_puzzle))\<lparr>backtrack_coord := 1\<rparr>) = Inr True \<and>
   reaches (start_board two_open_puzzle) (start_board two_open_puzzle) \<and>
   solver_solve (start_board two_open_puzzle) =
     Inr ((place 0 0 (start_board two_open_puzzle))\<lparr>backtrack_coord := 1\<rparr>) \<and>
   backtrack_coord (start_board two_open_puzzle) \<le> 0 \<and>
   0 < backtrack_coord ((place 0 0 (start_board two_open_puzzle))\<lparr>backtrack_coord := 1\<rparr>) \<and>
   (\<exists>i. py_pos 81 0 = Inr i \<and> i = 0 \<and>
      (solved (solve_puzzle ((place 0 0 (start_board two_open_puzzle))\<lparr>backtrack_coord := 1\<rparr>) ! i) \<or>
       is_valid (solve_puzzle ((place 0 0 (start_board two_open_puzzle))\<lparr>backtrack_coord := 1\<rparr>) ! i)
         ((place 0 0 (start_board two_open_puzzle))\<lparr>backtrack_coord := 1\<rparr>) = Inr True))"
proof -
  let ?s0 = "start_board two_open_puzzle"
  let ?s1 = "(place 0 0 ?s0)\<lparr>backtrack_coord := 1\<rparr>"
  note init = initialize_board_start [OF two_open_input]
  have r: "reaches ?s0 ?s1"
    using reaches.step [OF reaches.start _ two_open_first_step] by (simp add: start_fields)
  have o: "\<not> solved (solve_puzzle ?s1 ! 0)" "number (solve_puzzle ?s1 ! 0) = 5"
    using place_cell [of 0 ?s0 0] start_cell [of 0 two_open_puzzle]
    by (simp_all add: start_fields two_open_cell_0)
  from cells_before_cursor_are_fixed_or_valid [OF two_open_input init r, of 0]
  have v: "is_valid (solve_puzzle ?s1 ! 0) ?s1 = Inr True"
    using o(1) by (simp add: place_fields(3))
  have c: "backtrack_coord ?s0 \<le> 0" "0 < backtrack_coord ?s1"
    by (simp_all add: start_fields)
  from cells_before_cursor_are_fixed_or_valid
    [OF two_open_input init reaches.start, of 0 ?s1 0]
  have "\<exists>i. py_pos 81 0 = Inr i \<and>
      (solved (solve_puzzle ?s1 ! i) \<or> is_valid (solve_puzzle ?s1 ! i) ?s1 = Inr True)"
    using two_open_first_step c by simp
  then have e: "\<exists>i. py_pos 81 0 = Inr i \<and> i = 0 \<and>
      (solved (solve_puzzle ?s1 ! i) \<or> is_valid (solve_puzzle ?s1 ! i) ?s1 = Inr True)"
    by (auto simp: py_pos_def)
  show ?thesis
    using two_open_input init r o v c e two_open_first_step reaches.start [of ?s0]
    by (simp add: place_fields(3))
qed

text \<open>
  Claim C7. On a cell that is not solved and whose index is inside its candidate list,
  \<open>increment_value\<close> returns; the index only grows and stays inside the list; on return
  the cell is valid or the index is the last one; a cell valid on entry is returned
  unchanged with the grid; and when the index moved, the cell was invalid on entry, every
  candidate strictly between was tried and invalid, and the cell and the grid hold the
  candidate at the final index. The instance that follows is a run that ends invalid at the last index.
\<close>

theorem increment_value_exhausts_local_candidates:
  assumes "grid9 (puzzle game)" "box_size game = 3" "row c < 9" "column c < 9"
    and "\<not> solved c" "current_index c < length (possibilities c)"
  shows "\<exists>c' game'. increment_value c game = Inr (c', game') \<and>
     current_index c \<le> current_index c' \<and> current_index c' < length (possibilities c) \<and>
     (is_valid c' game' = Inr True \<or> current_index c' = length (possibilities c) - 1) \<and>
     (is_valid c game = Inr True \<longrightarrow> c' = c \<and> game' = game) \<and>
     (current_index c' = current_index c \<longrightarrow> c' = c \<and> game' = game) \<and>
     (current_index c' \<noteq> current_index c \<longrightarrow>
        is_valid c game = Inr False \<and>
        (c', game') = with_candidate c game (current_index c') \<and>
        (\<forall>k. current_index c < k \<and> k < current_index c' \<longrightarrow>
             is_valid (fst (with_candidate c game k)) (snd (with_candidate c game k)) =
               Inr False))"
  using assms by (rule increment_value_run)

theorem increment_value_exhausts_local_candidates_witness:
  "grid9 (puzzle (new_solver dup_row_puzzle)) \<and> box_size (new_solver dup_row_puzzle) = 3 \<and>
   increment_value
     \<lparr>solved = False, number = 0, possibilities = [1, 2, 3, 4, 6, 7, 8, 9], row = 0,
      column = 2, current_index = 0\<rparr> (new_solver dup_row_puzzle) =
   Inr (\<lparr>solved = False, number = 9, possibilities = [1, 2, 3, 4, 6, 7, 8, 9], row = 0,
         column = 2, current_index = 7\<rparr>,
        (new_solver dup_row_puzzle)\<lparr>puzzle := put dup_row_puzzle 0 2 9\<rparr>) \<and>
   is_valid \<lparr>solved = False, number = 9, possibilities = [1, 2, 3, 4, 6, 7, 8, 9], row = 0,
         column = 2, current_index = 7\<rparr>
     ((new_solver dup_row_puzzle)\<lparr>puzzle := put dup_row_puzzle 0 2 9\<rparr>) = Inr False \<and>
   (7::nat) = length [1, 2, 3, 4, 6, 7, 8, 9 :: int] - 1"
proof -
  have g: "grid9 dup_row_puzzle"
    by (simp add: grid9_def dup_row_puzzle_def)
  note n = new_solver_grid9 [OF g]
  let ?c = "\<lparr>solved = False, number = 0, possibilities = [1, 2, 3, 4, 6, 7, 8, 9 :: int],
      row = 0, column = 2, current_index = 0\<rparr>"
  have "\<exists>c' game'. increment_value ?c (new_solver dup_row_puzzle) = Inr (c', game') \<and>
     (is_valid c' game' = Inr True \<or> current_index c' = length (possibilities ?c) - 1)"
    using increment_value_exhausts_local_candidates [of "new_solver dup_row_puzzle" ?c] g n
    by simp blast
  then show ?thesis
    using g n dup_row_increment dup_row_invalid by simp
qed

text \<open>
  Claim C8. On a solved grid (entries in 1..9, no duplicate in a row, a column or a box)
  \<open>initialize_board\<close> marks all 81 cells solved; the first iteration of \<open>run_solve\<close>
  changes the cursor only, to 81, so nothing is reset and no cell or grid entry is
  written; the loop then stops, and \<open>solve\<close> returns the grid it was given.
\<close>

theorem solved_grid_is_left_alone:
  assumes "solved_grid g"
  shows "\<exists>s0. initialize_board (new_solver g) = Inr s0 \<and>
     length (solve_puzzle s0) = 81 \<and> (\<forall>c \<in> set (solve_puzzle s0). solved c) \<and>
     solver_solve s0 = Inr (s0\<lparr>backtrack_coord := 81\<rparr>) \<and>
     run_solve (Suc n) s0 = Some (Inr (s0\<lparr>backtrack_coord := 81\<rparr>)) \<and>
     puzzle s0 = g \<and> solve (Suc n) g = Some (Inr g)"
proof -
  let ?s = "start_board g"
  note ig = solved_grid_input [OF assms]
  note init = initialize_board_start [OF ig]
  note st = solved_board_step [OF assms]
  have len: "length (solve_puzzle ?s) = 81" and pz: "puzzle ?s = g" and c0: "backtrack_coord ?s = 0"
    by (simp_all add: start_board_def board_cells_length new_solver_def)
  have "solved (solve_puzzle ?s ! k)" if "k < 81" for k
    using that built_cell_fixed [OF solved_grid_entry [OF assms that]]
    by (simp add: start_board_def board_cells_nth)
  then have all: "\<forall>c \<in> set (solve_puzzle ?s). solved c"
    using len by (auto simp: in_set_conv_nth)
  have run: "run_solve (Suc n) ?s = Some (Inr (?s\<lparr>backtrack_coord := 81\<rparr>))"
    using st len c0 run_solve_done [of "?s\<lparr>backtrack_coord := 81\<rparr>" n] by simp
  have "solve (Suc n) g = Some (Inr g)"
    unfolding solve_def init using run pz by simp
  then show ?thesis
    using init len all st run pz by blast
qed

theorem solved_grid_is_left_alone_witness:
  "solved_grid solution \<and> solve 1 solution = Some (Inr solution)"
  using solved_grid_is_left_alone [OF solution_solved, of 0] solution_solved by auto

text \<open>
  Claim C9. For a 9 by 9 grid and a coordinate \<open>(i, j)\<close> with \<open>i, j\<close> in \<open>0..8\<close>, the box size
  is 3 and \<open>get_box\<close> returns the nine entries of the 3 by 3 block whose top-left
  coordinate is \<open>((i div 3) * 3, (j div 3) * 3)\<close>, row by row. \<open>get_box\<close> returns the list
  only: the solver state is not part of its result.
\<close>

theorem get_box_block:
  assumes "grid9 g" "i < 9" "j < 9"
  shows "box_size (new_solver g) = 3 \<and>
     get_box (new_solver g) i j =
       Inr (let r0 = i div 3 * 3; c0 = j div 3 * 3 in
            [g ! r0 ! c0, g ! r0 ! (c0 + 1), g ! r0 ! (c0 + 2),
             g ! (r0 + 1) ! c0, g ! (r0 + 1) ! (c0 + 1), g ! (r0 + 1) ! (c0 + 2),
             g ! (r0 + 2) ! c0, g ! (r0 + 2) ! (c0 + 1), g ! (r0 + 2) ! (c0 + 2)])"
proof -
  have bs: "box_size (new_solver g) = 3"
    using assms(1) by (simp add: new_solver_def grid9_def int_sqrt_9)
  have pz: "puzzle (new_solver g) = g"
    by (simp add: new_solver_def)
  have r: "i div 3 * 3 + 2 < 9" and c: "j div 3 * 3 + 3 \<le> 9"
    using box_start_le [of i] box_start_le [of j] assms by simp_all
  have len: "\<And>k. k < 9 \<Longrightarrow> j div 3 * 3 + 3 \<le> length (g ! k)"
    using assms(1) c by (simp add: grid9_def)
  show ?thesis
    using bs get_box_grid9 [of "new_solver g" i j] assms r
    by (simp add: pz upt3 Let_def take3_drop len)
qed

theorem get_box_block_witness:
  "grid9 example_puzzle \<and> (4::nat) < 9 \<and> (7::nat) < 9 \<and>
   box_size (new_solver example_puzzle) = 3 \<and>
   get_box (new_solver example_puzzle) 4 7 = Inr [0, 0, 3, 0, 0, 1, 0, 0, 6]"
  using get_box_block [of example_puzzle 4 7] example_grid9
  by (simp add: example_puzzle_def)

text \<open>
  Claim C10. \<open>set_number\<close> on a cell whose \<open>solved\<close> flag is set changes neither the cell
  nor the grid, whatever its candidate list and index are.
\<close>

theorem set_number_solved_noop:
  "solved c \<Longrightarrow> set_number c game = Inr (c, game)"
  by (simp add: set_number_def)

theorem set_number_solved_noop_witness:
  "solved \<lparr>solved = True, number = 0, possibilities = [5], row = 4, column = 4,
      current_index = 0\<rparr> \<and>
   set_number \<lparr>solved = True, number = 0, possibilities = [5], row = 4, column = 4,
      current_index = 0\<rparr> (new_solver example_puzzle) =
     Inr (\<lparr>solved = True, number = 0, possibilities = [5], row = 4, column = 4,
      current_index = 0\<rparr>, new_solver example_puzzle)"
  using set_number_solved_noop [of "\<lparr>solved = True, number = 0, possibilities = [5], row = 4,
      column = 4, current_index = 0\<rparr>" "new_solver example_puzzle"]
  by simp

end
